theory Spec2Isabelle
  imports Main "HOL-Library.Char_ord" "HOL-Library.List_Lexorder" "HOL-Library.Product_Lexorder"
    "HOL-Library.AList"
begin

unbundle bit_operations_syntax

section \<open>repren: multi-pattern replacement and file renaming\<close>

text \<open>
  A shallow embedding of \<^verbatim>\<open>src/repren.py\<close>. The program is Python 2 style code: a
  \<^verbatim>\<open>str\<close> is a byte string, modelled as \<open>string\<close> (a list of 8-bit characters), and
  integers are unbounded (\<open>nat\<close> for offsets and counters). Every exception the code can
  raise is a value of \<open>error\<close>; a function that can raise returns \<open>error + 'a\<close>.

  Two things the program only calls are taken as parameters: Python's \<^verbatim>\<open>re\<close> module (record
  \<open>re_module\<close>) and \<^verbatim>\<open>os.walk\<close>. The file system is a value that the file operations take and
  return, and a failing device is a parameter \<open>fault\<close> of the functions that write. The
  log lines written to stderr and the global \<^verbatim>\<open>_tally\<close> counters influence no result and are
  left out.
\<close>

subsection \<open>Exceptions\<close>

datatype error =
    IndexError
  | IOError
  | OSError
  | ReError
  | UnboundLocalError
  | ValueError
  | ShutilError
  | InvalidLine "string list"
  | PathNotFound string

text \<open>
  \<open>InvalidLine bits\<close> is \<^verbatim>\<open>fail("invalid line in pattern file: %s" % bits)\<close> and
  \<open>PathNotFound p\<close> is \<^verbatim>\<open>fail("path not found: %s" % path)\<close>: \<^verbatim>\<open>fail\<close> prints the message and
  calls \<^verbatim>\<open>sys.exit(1)\<close>, whose \<^verbatim>\<open>SystemExit\<close> no handler of the program catches.
\<close>

subsection \<open>The \<^verbatim>\<open>re\<close> module, as far as the program uses it\<close>

record regex =
  pattern :: "string"
  ignorecase :: "bool"

text \<open>A match object: \<^verbatim>\<open>m.start()\<close>, \<^verbatim>\<open>m.end()\<close> and \<^verbatim>\<open>m.group()\<close>.\<close>

record match =
  m_start :: "nat"
  m_end :: "nat"
  m_group :: "string"

record re_module =
  re_escape :: "string \<Rightarrow> string"
  re_compile :: "string \<Rightarrow> bool \<Rightarrow> error + regex"
  finditer :: "regex \<Rightarrow> string \<Rightarrow> match list"
  expand :: "match \<Rightarrow> string \<Rightarrow> string"

subsection \<open>String matching\<close>

definition overlap :: "match \<Rightarrow> match \<Rightarrow> bool" where
  "overlap match1 match2 \<longleftrightarrow> m_start match1 < m_end match2 \<and> m_start match2 < m_end match1"

text \<open>
  \<^verbatim>\<open>bisect.bisect_left(a, x)\<close>, the standard library's loop:
  \<^verbatim>\<open>while lo < hi: mid = (lo+hi)//2; if a[mid] < x: lo = mid+1 else: hi = mid\<close>.
\<close>

function bisect_left_loop :: "nat list \<Rightarrow> nat \<Rightarrow> nat \<Rightarrow> nat \<Rightarrow> nat" where
  "bisect_left_loop a x lo hi =
     (if lo < hi then
        (let mid = (lo + hi) div 2 in
         if a ! mid < x then bisect_left_loop a x (mid + 1) hi
         else bisect_left_loop a x lo mid)
      else lo)"
  by pat_completeness auto
termination
  by (relation "measure (\<lambda>(a, x, lo, hi). hi - lo)") auto

declare bisect_left_loop.simps [simp del]

definition bisect_left :: "nat list \<Rightarrow> nat \<Rightarrow> nat" where
  "bisect_left a x = bisect_left_loop a x 0 (length a)"

text \<open>\<^verbatim>\<open>xs.insert(index, v)\<close> for \<open>index \<le> len(xs)\<close>, the only way the program calls it.\<close>

definition list_insert :: "'a list \<Rightarrow> nat \<Rightarrow> 'a \<Rightarrow> 'a list" where
  "list_insert xs index v = take index xs @ v # drop index xs"

text \<open>
  The body of the loop of \<^verbatim>\<open>_sort_drop_overlaps\<close>; the state is the pair
  \<open>(non_overlaps, starts)\<close>. Each \<^verbatim>\<open>continue\<close> leaves the state as it is.
\<close>

definition sort_drop_step ::
  "(match \<times> string) list \<times> nat list \<Rightarrow> match \<times> string \<Rightarrow> (match \<times> string) list \<times> nat list" where
  "sort_drop_step st mr =
     (let non_overlaps = fst st; starts = snd st; m = fst mr;
          index = bisect_left starts (m_start m)
      in if index > 0 \<and> overlap (fst (non_overlaps ! (index - 1))) m then st
         else if index < length non_overlaps \<and> overlap (fst (non_overlaps ! index)) m then st
         else (list_insert non_overlaps index mr, list_insert starts index (m_start m)))"

definition sort_drop_overlaps :: "(match \<times> string) list \<Rightarrow> (match \<times> string) list" where
  "sort_drop_overlaps matches = fst (foldl sort_drop_step ([], []) matches)"

text \<open>
  Two invariants of the loop state \<open>(non_overlaps, starts)\<close>. The first holds in every
  run: \<open>starts\<close> lists the start offsets of \<open>non_overlaps\<close> and is sorted. The second holds
  as long as every match seen is non-empty: moreover every accepted match is non-empty
  and ends before the next one begins (\<open>ends_before\<close>).
\<close>

definition starts_inv :: "(match \<times> string) list \<times> nat list \<Rightarrow> bool" where
  "starts_inv st \<longleftrightarrow> snd st = map (\<lambda>mr. m_start (fst mr)) (fst st) \<and> sorted (snd st)"

definition ends_before :: "match \<times> string \<Rightarrow> match \<times> string \<Rightarrow> bool" where
  "ends_before a b \<longleftrightarrow> m_end (fst a) \<le> m_start (fst b)"

definition selection_inv :: "(match \<times> string) list \<times> nat list \<Rightarrow> bool" where
  "selection_inv st \<longleftrightarrow>
     snd st = map (\<lambda>mr. m_start (fst mr)) (fst st)
     \<and> list_all (\<lambda>mr. m_start (fst mr) < m_end (fst mr)) (fst st)
     \<and> sorted_wrt ends_before (fst st)"

text \<open>Python's slice \<^verbatim>\<open>s[a:b]\<close> for \<open>0 \<le> a, b\<close>: empty when \<open>b \<le> a\<close>.\<close>

definition slice :: "string \<Rightarrow> nat \<Rightarrow> nat \<Rightarrow> string" where
  "slice s a b = take (b - a) (drop a s)"

text \<open>The loop of \<^verbatim>\<open>_apply_replacements\<close>, with \<open>pos\<close> as an argument; the pieces of \<open>out\<close> are
  joined as they are produced.\<close>

fun apply_replacements_from :: "re_module \<Rightarrow> string \<Rightarrow> nat \<Rightarrow> (match \<times> string) list \<Rightarrow> string" where
  "apply_replacements_from re input pos [] = drop pos input"
| "apply_replacements_from re input pos ((m, replacement) # matches) =
     slice input pos (m_start m) @ expand re m replacement
       @ apply_replacements_from re input (m_end m) matches"

definition apply_replacements :: "re_module \<Rightarrow> string \<Rightarrow> (match \<times> string) list \<Rightarrow> string" where
  "apply_replacements re input matches = apply_replacements_from re input 0 matches"

record MatchCounts =
  found :: "nat"
  valid :: "nat"

definition MatchCounts_add :: "MatchCounts \<Rightarrow> MatchCounts \<Rightarrow> MatchCounts" where
  "MatchCounts_add c o' = \<lparr>found = found c + found o', valid = valid c + valid o'\<rparr>"

text \<open>The matches \<^verbatim>\<open>multi_replace\<close> collects: rule by rule, each rule's matches in scan order.\<close>

definition collect_matches :: "re_module \<Rightarrow> string \<Rightarrow> (regex \<times> string) list \<Rightarrow> (match \<times> string) list" where
  "collect_matches re input patterns =
     concat (map (\<lambda>(rx, replacement). map (\<lambda>m. (m, replacement)) (finditer re rx input)) patterns)"

definition multi_replace :: "re_module \<Rightarrow> string \<Rightarrow> (regex \<times> string) list \<Rightarrow> string \<times> MatchCounts" where
  "multi_replace re input patterns =
     (let matches = collect_matches re input patterns;
          valid_matches = sort_drop_overlaps matches;
          result = apply_replacements re input valid_matches
      in (result, \<lparr>found = length matches, valid = length valid_matches\<rparr>))"

subsection \<open>The \<^verbatim>\<open>re\<close> module on plain patterns\<close>

text \<open>
  What \<^verbatim>\<open>re\<close> does when a pattern consists of ordinary characters only (letters, digits,
  underscore: nothing the regex syntax gives a meaning to) and a replacement template
  holds no backslash: the pattern matches its own text, \<^verbatim>\<open>finditer\<close> scans from the left
  and resumes after each match (one character further after an empty match; the empty
  pattern matches at every offset \<open>0..len\<close>), and \<^verbatim>\<open>expand\<close> returns the template. The
  concrete runs below use patterns and templates of this kind only.
\<close>

definition ascii_lowercase :: "string" where
  "ascii_lowercase = ''abcdefghijklmnopqrstuvwxyz''"

definition ascii_uppercase :: "string" where
  "ascii_uppercase = ''ABCDEFGHIJKLMNOPQRSTUVWXYZ''"

definition digits :: "string" where
  "digits = ''0123456789''"

definition char_lower :: "char \<Rightarrow> char" where
  "char_lower c = (case map_of (zip ascii_uppercase ascii_lowercase) c of Some l \<Rightarrow> l | None \<Rightarrow> c)"

definition char_upper :: "char \<Rightarrow> char" where
  "char_upper c = (case map_of (zip ascii_lowercase ascii_uppercase) c of Some u \<Rightarrow> u | None \<Rightarrow> c)"

definition lower :: "string \<Rightarrow> string" where
  "lower s = map char_lower s"

definition upper :: "string \<Rightarrow> string" where
  "upper s = map char_upper s"

definition plain_matches_at :: "regex \<Rightarrow> string \<Rightarrow> nat \<Rightarrow> bool" where
  "plain_matches_at rx s i =
     (let n = length (pattern rx); piece = take n (drop i s)
      in if ignorecase rx then lower piece = lower (pattern rx) else piece = pattern rx)"

function plain_scan :: "regex \<Rightarrow> string \<Rightarrow> nat \<Rightarrow> match list" where
  "plain_scan rx s i =
     (if length s < i then []
      else if plain_matches_at rx s i then
        (let n = length (pattern rx)
         in \<lparr>m_start = i, m_end = i + n, m_group = take n (drop i s)\<rparr>
              # plain_scan rx s (if n = 0 then i + 1 else i + n))
      else plain_scan rx s (i + 1))"
  by pat_completeness auto
termination
proof (relation "measure (\<lambda>(rx, s, i). Suc (length s) - i)", goal_cases)
  case (2 rx s i n)
  then show ?case by (cases "pattern rx") auto
qed auto

text \<open>\<^verbatim>\<open>re.escape\<close> of Python 2: a backslash before every character that is not an ASCII
  letter or digit (the NUL character becomes \<^verbatim>\<open>\000\<close>).\<close>

definition plain_escape :: "string \<Rightarrow> string" where
  "plain_escape s =
     concat (map (\<lambda>c. if c \<in> set (ascii_lowercase @ ascii_uppercase @ digits) then [c]
                        else if c = CHR 0x00 then [CHR 0x5C, CHR ''0'', CHR ''0'', CHR ''0'']
                        else [CHR 0x5C, c]) s)"

definition plain_re :: "re_module" where
  "plain_re = \<lparr>re_escape = plain_escape,
               re_compile = (\<lambda>p i. Inr \<lparr>pattern = p, ignorecase = i\<rparr>),
               finditer = (\<lambda>rx s. plain_scan rx s 0),
               expand = (\<lambda>m template. template)\<rparr>"

text \<open>\<^verbatim>\<open>re.compile(p)\<close> for a plain pattern \<open>p\<close>, no flags.\<close>

definition lit :: "string \<Rightarrow> regex" where
  "lit p = \<lparr>pattern = p, ignorecase = False\<rparr>"

subsection \<open>Case handling\<close>

definition TAB :: "char" where
  "TAB = CHR 0x09"

definition is_AZ :: "char \<Rightarrow> bool" where
  "is_AZ c \<longleftrightarrow> c \<in> set ascii_uppercase"

text \<open>
  \<^verbatim>\<open>_camel_split_pat1.sub("\\1\t\\2", name)\<close> with the pattern \<^verbatim>\<open>([^A-Z])([A-Z])\<close>: the scan
  replaces a match of two characters and resumes behind it, otherwise moves on by one.
\<close>

fun camel_split_sub1 :: "string \<Rightarrow> string" where
  "camel_split_sub1 (c1 # c2 # cs) =
     (if \<not> is_AZ c1 \<and> is_AZ c2 then c1 # TAB # c2 # camel_split_sub1 cs
      else c1 # camel_split_sub1 (c2 # cs))"
| "camel_split_sub1 cs = cs"

text \<open>The same with \<^verbatim>\<open>_camel_split_pat2\<close>, \<^verbatim>\<open>([A-Z])([A-Z][^A-Z])\<close>, a match of three characters.\<close>

fun camel_split_sub2 :: "string \<Rightarrow> string" where
  "camel_split_sub2 (c1 # c2 # c3 # cs) =
     (if is_AZ c1 \<and> is_AZ c2 \<and> \<not> is_AZ c3 then c1 # TAB # c2 # c3 # camel_split_sub2 cs
      else c1 # camel_split_sub2 (c2 # c3 # cs))"
| "camel_split_sub2 cs = cs"

text \<open>\<^verbatim>\<open>s.split(sep)\<close> for a separator of one character: \<open>n + 1\<close> pieces for \<open>n\<close>
  separators, empty pieces included. (The result is never empty, so the last case of
  the second equation is never taken.)\<close>

fun split_on :: "char \<Rightarrow> string \<Rightarrow> string list" where
  "split_on sep [] = [[]]"
| "split_on sep (c # cs) =
     (if c = sep then [] # split_on sep cs
      else (case split_on sep cs of w # ws \<Rightarrow> (c # w) # ws | [] \<Rightarrow> [[c]]))"

definition split_name :: "string \<Rightarrow> string \<times> string list" where
  "split_name name =
     (if CHR ''_'' \<in> set name then (''_'', split_on (CHR ''_'') name)
      else ([], split_on TAB (camel_split_sub2 (camel_split_sub1 name))))"

text \<open>\<^verbatim>\<open>word[0]\<close> raises \<^verbatim>\<open>IndexError\<close> on the empty word.\<close>

definition capitalize :: "string \<Rightarrow> error + string" where
  "capitalize word = (case word of [] \<Rightarrow> Inl IndexError | c # cs \<Rightarrow> Inr (char_upper c # lower cs))"

text \<open>A list comprehension \<^verbatim>\<open>[f(x) for x in xs]\<close> whose \<open>f\<close> may raise: the first exception
  ends it.\<close>

fun map_raise :: "('a \<Rightarrow> error + 'b) \<Rightarrow> 'a list \<Rightarrow> error + 'b list" where
  "map_raise f [] = Inr []"
| "map_raise f (x # xs) =
     (case f x of
        Inl e \<Rightarrow> Inl e
      | Inr y \<Rightarrow> (case map_raise f xs of Inl e \<Rightarrow> Inl e | Inr ys \<Rightarrow> Inr (y # ys)))"

fun join :: "string \<Rightarrow> string list \<Rightarrow> string" where
  "join sep [] = []"
| "join sep [w] = w"
| "join sep (w # ws) = w @ sep @ join sep ws"

definition to_lower_camel :: "string \<Rightarrow> error + string" where
  "to_lower_camel name =
     (case snd (split_name name) of
        [] \<Rightarrow> Inl IndexError
      | w # ws \<Rightarrow>
          (case map_raise capitalize ws of
             Inl e \<Rightarrow> Inl e
           | Inr cs \<Rightarrow> Inr (lower w @ concat cs)))"

definition to_upper_camel :: "string \<Rightarrow> error + string" where
  "to_upper_camel name =
     (case map_raise capitalize (snd (split_name name)) of
        Inl e \<Rightarrow> Inl e
      | Inr cs \<Rightarrow> Inr (concat cs))"

definition to_lower_underscore :: "string \<Rightarrow> error + string" where
  "to_lower_underscore name = Inr (join ''_'' (map lower (snd (split_name name))))"

definition to_upper_underscore :: "string \<Rightarrow> error + string" where
  "to_upper_underscore name = Inr (join ''_'' (map upper (snd (split_name name))))"

text \<open>
  \<^verbatim>\<open>_name_pat\<close> is \<^verbatim>\<open>\w+\<close>; on byte strings \<^verbatim>\<open>\w\<close> is \<^verbatim>\<open>[a-zA-Z0-9_]\<close>. \<open>name_pieces\<close> cuts an
  expression into the maximal runs of word characters (the matches of \<^verbatim>\<open>_name_pat\<close>, in
  order) and the characters between them; the first argument is the run read so far.
\<close>

definition is_word_char :: "char \<Rightarrow> bool" where
  "is_word_char c \<longleftrightarrow> c \<in> set (ascii_lowercase @ ascii_uppercase @ digits @ ''_'')"

datatype piece = Name string | Other char

fun name_pieces :: "string \<Rightarrow> string \<Rightarrow> piece list" where
  "name_pieces cur [] = (if cur = [] then [] else [Name cur])"
| "name_pieces cur (c # cs) =
     (if is_word_char c then name_pieces (cur @ [c]) cs
      else (if cur = [] then [] else [Name cur]) @ Other c # name_pieces [] cs)"

text \<open>\<^verbatim>\<open>_name_pat.findall(expr)\<close>: the names \<^verbatim>\<open>_transform_expr\<close> hands to \<^verbatim>\<open>transform\<close>.\<close>

definition names_of :: "string \<Rightarrow> string list" where
  "names_of expr = concat (map (\<lambda>p. case p of Name n \<Rightarrow> [n] | Other c \<Rightarrow> []) (name_pieces [] expr))"

definition transform_expr :: "string \<Rightarrow> (string \<Rightarrow> error + string) \<Rightarrow> error + string" where
  "transform_expr expr transform =
     (case map_raise (\<lambda>p. case p of Name n \<Rightarrow> transform n | Other c \<Rightarrow> Inr [c]) (name_pieces [] expr) of
        Inl e \<Rightarrow> Inl e
      | Inr parts \<Rightarrow> Inr (concat parts))"

definition all_case_variants :: "string \<Rightarrow> error + string list" where
  "all_case_variants expr =
     map_raise (transform_expr expr)
       [to_lower_camel, to_upper_camel, to_lower_underscore, to_upper_underscore]"

subsection \<open>Pattern files\<close>

definition LF :: "char" where
  "LF = CHR 0x0A"

definition CR :: "char" where
  "CR = CHR 0x0D"

text \<open>\<^verbatim>\<open>s.splitlines()\<close> of a byte string: a line ends at \<^verbatim>\<open>\n\<close>, \<^verbatim>\<open>\r\n\<close> or \<^verbatim>\<open>\r\<close>, the line ends
  are dropped, and no empty line follows the last line end. The first argument is the
  line read so far.\<close>

fun splitlines_from :: "string \<Rightarrow> string \<Rightarrow> string list" where
  "splitlines_from cur [] = (if cur = [] then [] else [cur])"
| "splitlines_from cur (c # cs) =
     (if c = LF then cur # splitlines_from [] cs
      else if c = CR then
        (case cs of
           [] \<Rightarrow> [cur]
         | d # ds \<Rightarrow> if d = LF then cur # splitlines_from [] ds else cur # splitlines_from [] (d # ds))
      else splitlines_from (cur @ [c]) cs)"

definition splitlines :: "string \<Rightarrow> string list" where
  "splitlines s = splitlines_from [] s"

text \<open>\<^verbatim>\<open>s.strip()\<close>: the ASCII whitespace characters are removed at both ends.\<close>

definition is_space :: "char \<Rightarrow> bool" where
  "is_space c \<longleftrightarrow> c \<in> set [CHR '' '', TAB, LF, CHR 0x0B, CHR 0x0C, CR]"

definition strip :: "string \<Rightarrow> string" where
  "strip s = rev (dropWhile is_space (rev (dropWhile is_space s)))"

definition startswith :: "string \<Rightarrow> string \<Rightarrow> bool" where
  "startswith s p \<longleftrightarrow> take (length p) s = p"

text \<open>
  The body of the loop of \<^verbatim>\<open>parse_patterns\<close> for one line: the rules the line appends to
  \<^verbatim>\<open>patterns\<close>. \<^verbatim>\<open>sorted(set(pairs))\<close> is \<open>sort (remdups pairs)\<close>: Python compares tuples
  lexicographically and byte strings lexicographically by byte value, which is the order
  of \<open>string \<times> string\<close> here. The handler \<^verbatim>\<open>except Exception as e: raise e\<close> raises again what
  it caught.
\<close>

text \<open>\<^verbatim>\<open>r'\b' + regex_variant + r'\b'\<close> when \<^verbatim>\<open>word_breaks\<close> is set.\<close>

definition word_break_wrap :: "bool \<Rightarrow> string \<Rightarrow> string" where
  "word_break_wrap word_breaks regex_variant =
     (if word_breaks then [CHR 0x5C, CHR ''b''] @ regex_variant @ [CHR 0x5C, CHR ''b''] else regex_variant)"

definition parse_line ::
  "re_module \<Rightarrow> bool \<Rightarrow> bool \<Rightarrow> bool \<Rightarrow> bool \<Rightarrow> string \<Rightarrow> error + (regex \<times> string) list" where
  "parse_line re literal word_breaks insensitive preserve_case line =
     (let bits = split_on TAB line in
      if startswith (strip line) ''#'' then Inr []
      else if strip line \<noteq> [] \<and> length bits = 2 then
        (let regex0 = bits ! 0; replacement = bits ! 1;
             regex = (if literal then re_escape re regex0 else regex0);
             variants =
               (if preserve_case then
                  (case all_case_variants regex of
                     Inl e \<Rightarrow> Inl e
                   | Inr rs \<Rightarrow>
                       (case all_case_variants replacement of
                          Inl e \<Rightarrow> Inl e
                        | Inr ps \<Rightarrow> Inr (zip rs ps)))
                else Inr [])
         in case variants of
              Inl e \<Rightarrow> Inl e
            | Inr vs \<Rightarrow>
                map_raise
                  (\<lambda>(regex_variant, replacement_variant).
                     case re_compile re (word_break_wrap word_breaks regex_variant) insensitive of
                       Inl e \<Rightarrow> Inl e
                     | Inr compiled \<Rightarrow> Inr (compiled, replacement_variant))
                  (sort (remdups (vs @ [(regex, replacement)]))))
      else Inl (InvalidLine bits))"

definition parse_patterns ::
  "re_module \<Rightarrow> string \<Rightarrow> bool \<Rightarrow> bool \<Rightarrow> bool \<Rightarrow> bool \<Rightarrow> error + (regex \<times> string) list" where
  "parse_patterns re patterns_str literal word_breaks insensitive preserve_case =
     (case map_raise (parse_line re literal word_breaks insensitive preserve_case)
             (splitlines patterns_str) of
        Inl e \<Rightarrow> Inl e
      | Inr rules \<Rightarrow> Inr (concat rules))"

subsection \<open>The file system\<close>

text \<open>
  The files and directories the program sees: a finite table from paths to regular files
  (content and \<^verbatim>\<open>st_mode\<close>) and the list of directories.
\<close>

type_synonym path = "string"

record file_data =
  content :: "string"
  mode :: "nat"

record filesystem =
  files :: "(path \<times> file_data) list"
  dirs :: "path list"

definition lookup :: "filesystem \<Rightarrow> path \<Rightarrow> file_data option" where
  "lookup fs p = map_of (files fs) p"

definition isfile :: "filesystem \<Rightarrow> path \<Rightarrow> bool" where
  "isfile fs p \<longleftrightarrow> lookup fs p \<noteq> None"

definition isdir :: "filesystem \<Rightarrow> path \<Rightarrow> bool" where
  "isdir fs p \<longleftrightarrow> p \<in> set (dirs fs)"

definition path_exists :: "filesystem \<Rightarrow> path \<Rightarrow> bool" where
  "path_exists fs p \<longleftrightarrow> isfile fs p \<or> isdir fs p"

subsection \<open>Collision-safe destination paths\<close>

definition is_digit :: "char \<Rightarrow> bool" where
  "is_digit c \<longleftrightarrow> c \<in> set digits"

fun str_nat :: "nat \<Rightarrow> string" where
  "str_nat n = (if n < 10 then [digits ! n] else str_nat (n div 10) @ [digits ! (n mod 10)])"

declare str_nat.simps [simp del]

definition trailing_num_group1 :: "string \<Rightarrow> string option" where
  "trailing_num_group1 s =
     (let body = (if s \<noteq> [] \<and> last s = LF then butlast s else s);
          r = rev body
      in case dropWhile is_digit r of
           [] \<Rightarrow> None
         | c # g \<Rightarrow>
             if c = CHR ''.'' \<and> takeWhile is_digit r \<noteq> [] \<and> LF \<notin> set g then Some (rev g)
             else None)"

definition next_dest :: "string \<Rightarrow> nat \<Rightarrow> string" where
  "next_dest dest_path i =
     (case trailing_num_group1 dest_path of Some g \<Rightarrow> g | None \<Rightarrow> dest_path) @ ''.'' @ str_nat i"

primrec candidate :: "string \<Rightarrow> nat \<Rightarrow> nat \<Rightarrow> string" where
  "candidate dest_path i 0 = dest_path"
| "candidate dest_path i (Suc k) = next_dest (candidate dest_path i k) (i + k)"

lemma str_nat_digits: "\<forall>c \<in> set (str_nat n). is_digit c"
proof (induction n rule: str_nat.induct)
  case (1 n)
  have "length digits = 10" by (simp add: digits_def)
  then have d: "\<And>k. k < 10 \<Longrightarrow> is_digit (digits ! k)"
    by (simp add: is_digit_def)
  show ?case
  proof (cases "n < 10")
    case True
    then show ?thesis using d by (subst str_nat.simps) simp
  next
    case False
    then show ?thesis using 1 d[of "n mod 10"] by (subst str_nat.simps) auto
  qed
qed

lemma str_nat_nonempty: "str_nat n \<noteq> []"
  by (subst str_nat.simps) simp

lemma digits_inj: "j < 10 \<Longrightarrow> k < 10 \<Longrightarrow> digits ! j = digits ! k \<Longrightarrow> j = k"
proof -
  have "distinct digits" by (simp add: digits_def)
  moreover have "length digits = 10" by (simp add: digits_def)
  ultimately show "j < 10 \<Longrightarrow> k < 10 \<Longrightarrow> digits ! j = digits ! k \<Longrightarrow> j = k"
    by (simp add: nth_eq_iff_index_eq)
qed

lemma str_nat_inj: "str_nat m = str_nat n \<Longrightarrow> m = n"
proof (induction m arbitrary: n rule: str_nat.induct)
  case (1 m)
  show ?case
  proof (cases "m < 10")
    case True
    with "1.prems" have "[digits ! m] = str_nat n" by (subst (asm) str_nat.simps) simp
    moreover have "\<not> n < 10 \<Longrightarrow> length (str_nat n) \<ge> 2"
      using str_nat_nonempty[of "n div 10"]
      by (subst str_nat.simps) (cases "str_nat (n div 10)"; simp)
    ultimately have n: "n < 10" by (metis One_nat_def length_Cons list.size(3) not_less_eq_eq numeral_2_eq_2 le_numeral_extra(4) Suc_1 lessI not_less)
    with \<open>[digits ! m] = str_nat n\<close> have "digits ! m = digits ! n" by (subst (asm) str_nat.simps) simp
    with True n show ?thesis by (rule digits_inj)
  next
    case False
    then have m: "str_nat m = str_nat (m div 10) @ [digits ! (m mod 10)]" by (subst str_nat.simps) simp
    have "\<not> n < 10"
    proof
      assume "n < 10"
      then have "str_nat n = [digits ! n]" by (subst str_nat.simps) simp
      with "1.prems" m str_nat_nonempty[of "m div 10"] show False by (cases "str_nat (m div 10)") auto
    qed
    then have n: "str_nat n = str_nat (n div 10) @ [digits ! (n mod 10)]" by (subst str_nat.simps) simp
    from "1.prems" m n have a: "str_nat (m div 10) = str_nat (n div 10)" and b: "digits ! (m mod 10) = digits ! (n mod 10)"
      by auto
    from "1.IH"[OF False a] have "m div 10 = n div 10" .
    moreover from b have "m mod 10 = n mod 10" by (intro digits_inj) auto
    ultimately show ?thesis by (metis div_mult_mod_eq)
  qed
qed

lemma trailing_num_group1_suffixed:
  "trailing_num_group1 (b @ ''.'' @ str_nat i) = (if LF \<in> set b then None else Some b)"
proof -
  let ?s = "b @ ''.'' @ str_nat i"
  have dig: "\<And>c. c \<in> set (rev (str_nat i)) \<Longrightarrow> is_digit c"
    using str_nat_digits[of i] by simp
  have "is_digit (last (str_nat i))"
    using str_nat_digits[of i] str_nat_nonempty[of i] last_in_set by blast
  moreover have "\<not> is_digit LF" by (simp add: is_digit_def digits_def LF_def)
  ultimately have "last (str_nat i) \<noteq> LF" by auto
  then have nl: "last ?s \<noteq> LF" using str_nat_nonempty[of i] by simp
  have r: "rev ?s = rev (str_nat i) @ CHR ''.'' # rev b" by simp
  have nd: "\<not> is_digit (CHR ''.'')" by (simp add: is_digit_def digits_def)
  have tw: "takeWhile is_digit (rev ?s) = rev (str_nat i)"
    unfolding r using nd by (subst takeWhile_append2) (use dig in auto)
  have dw: "dropWhile is_digit (rev ?s) = CHR ''.'' # rev b"
    unfolding r using nd by (subst dropWhile_append2) (use dig in auto)
  show ?thesis
    unfolding trailing_num_group1_def Let_def using nl tw dw str_nat_nonempty[of i]
    by (simp del: rev_append append_assoc)
qed

lemma next_dest_base:
  "\<exists>b. next_dest d i = b @ ''.'' @ str_nat i"
  by (auto simp: next_dest_def)

lemma next_dest_suffixed:
  "next_dest (b @ ''.'' @ str_nat j) i =
     (if LF \<in> set b then b @ ''.'' @ str_nat j @ ''.'' @ str_nat i else b @ ''.'' @ str_nat i)"
  unfolding next_dest_def trailing_num_group1_suffixed by simp

lemma candidate_shift: "candidate (next_dest d i) (Suc i) k = candidate d i (Suc k)"
  by (induction k) simp_all

lemma candidate_plain:
  assumes "LF \<notin> set b" and "candidate d i (Suc 0) = b @ ''.'' @ str_nat i"
  shows "candidate d i (Suc k) = b @ ''.'' @ str_nat (i + k)"
proof (induction k)
  case 0
  then show ?case using assms by simp
next
  case (Suc k)
  have "candidate d i (Suc (Suc k)) = next_dest (candidate d i (Suc k)) (i + Suc k)" by simp
  also have "\<dots> = b @ ''.'' @ str_nat (i + Suc k)"
    unfolding Suc.IH next_dest_suffixed using assms(1) by simp
  finally show ?case .
qed

lemma candidate_newline:
  assumes "LF \<in> set b" and "candidate d i (Suc 0) = b @ ''.'' @ str_nat i"
  shows "\<exists>b'. LF \<in> set b' \<and> candidate d i (Suc k) = b' @ ''.'' @ str_nat (i + k)
           \<and> length (candidate d i (Suc 0)) + k \<le> length (candidate d i (Suc k))"
proof (induction k)
  case 0
  then show ?case using assms by auto
next
  case (Suc k)
  then obtain b' where b': "LF \<in> set b'" "candidate d i (Suc k) = b' @ ''.'' @ str_nat (i + k)"
    and len: "length (candidate d i (Suc 0)) + k \<le> length (candidate d i (Suc k))" by blast
  have "candidate d i (Suc (Suc k)) = next_dest (candidate d i (Suc k)) (i + Suc k)" by simp
  also have "\<dots> = (b' @ ''.'' @ str_nat (i + k)) @ ''.'' @ str_nat (i + Suc k)"
    unfolding b'(2) next_dest_suffixed using b'(1) by simp
  finally have eq: "candidate d i (Suc (Suc k)) = (b' @ ''.'' @ str_nat (i + k)) @ ''.'' @ str_nat (i + Suc k)" .
  have "length (candidate d i (Suc (Suc k))) > length (candidate d i (Suc k))"
    unfolding eq b'(2) by simp
  with len have "length (candidate d i (Suc 0)) + Suc k \<le> length (candidate d i (Suc (Suc k)))" by simp
  moreover have "LF \<in> set (b' @ ''.'' @ str_nat (i + k))" using b'(1) by simp
  ultimately show ?case using eq by blast
qed

lemma candidate_fresh: "candidate d i (Suc 0) \<noteq> candidate d i (Suc (Suc k))"
proof -
  obtain b where b: "candidate d i (Suc 0) = b @ ''.'' @ str_nat i"
    using next_dest_base[of d i] by auto
  show ?thesis
  proof (cases "LF \<in> set b")
    case True
    from candidate_newline[OF True b, of "Suc k"]
    have "length (candidate d i (Suc 0)) < length (candidate d i (Suc (Suc k)))" by auto
    then show ?thesis by auto
  next
    case False
    from candidate_plain[OF False b, of "Suc k"]
    have "candidate d i (Suc (Suc k)) = b @ ''.'' @ str_nat (i + Suc k)" .
    moreover have "str_nat i \<noteq> str_nat (i + Suc k)" using str_nat_inj[of i "i + Suc k"] by auto
    ultimately show ?thesis using b by simp
  qed
qed

definition existing_candidates :: "filesystem \<Rightarrow> path \<Rightarrow> nat \<Rightarrow> path set" where
  "existing_candidates fs d i = {p \<in> set (map fst (files fs)) \<union> set (dirs fs). \<exists>k. p = candidate d i (Suc k)}"

lemma path_exists_iff: "path_exists fs p \<longleftrightarrow> p \<in> set (map fst (files fs)) \<union> set (dirs fs)"
  by (auto simp: path_exists_def isfile_def isdir_def lookup_def map_of_eq_None_iff)

lemma existing_candidates_less:
  assumes "path_exists fs (next_dest d i)"
  shows "card (existing_candidates fs (next_dest d i) (Suc i)) < card (existing_candidates fs d i)"
proof (rule psubset_card_mono)
  show "finite (existing_candidates fs d i)" by (simp add: existing_candidates_def)
  have sub: "existing_candidates fs (next_dest d i) (Suc i) \<subseteq> existing_candidates fs d i"
    unfolding existing_candidates_def candidate_shift by blast
  have mem: "next_dest d i \<in> existing_candidates fs d i"
    unfolding existing_candidates_def using assms path_exists_iff[of fs "next_dest d i"]
    by (auto intro: exI[of _ 0])
  have "next_dest d i \<notin> existing_candidates fs (next_dest d i) (Suc i)"
    unfolding existing_candidates_def candidate_shift using candidate_fresh[of d i] by auto
  with sub mem show "existing_candidates fs (next_dest d i) (Suc i) \<subset> existing_candidates fs d i"
    by blast
qed

function free_path :: "filesystem \<Rightarrow> path \<Rightarrow> nat \<Rightarrow> path" where
  "free_path fs dest_path i =
     (if path_exists fs dest_path then free_path fs (next_dest dest_path i) (i + 1) else dest_path)"
  by pat_completeness auto
termination
proof (relation "measure (\<lambda>(fs, d, i). if path_exists fs d then Suc (card (existing_candidates fs d i)) else 0)",
    goal_cases)
  case 1
  show ?case by simp
next
  case (2 fs dest_path i)
  then show ?case using existing_candidates_less[of fs dest_path i] by auto
qed

subsection \<open>File handling\<close>

definition BACKUP_SUFFIX :: "string" where
  "BACKUP_SUFFIX = ''.orig''"

definition TEMP_SUFFIX :: "string" where
  "TEMP_SUFFIX = ''.repren.tmp''"

text \<open>\<^verbatim>\<open>os.path.dirname\<close> (posixpath): the text up to the last slash, without trailing slashes
  unless it consists of slashes only.\<close>

definition dirname :: "path \<Rightarrow> path" where
  "dirname p =
     (let head = rev (dropWhile (\<lambda>c. c \<noteq> CHR ''/'') (rev p))
      in if head \<noteq> [] \<and> \<not> list_all (\<lambda>c. c = CHR ''/'') head
         then rev (dropWhile (\<lambda>c. c = CHR ''/'') (rev head)) else head)"

text \<open>\<^verbatim>\<open>os.path.basename(path.rstrip("/"))\<close>, which \<^verbatim>\<open>shutil.move\<close> uses for the name inside a
  destination directory, and \<^verbatim>\<open>os.path.join\<close> of two parts.\<close>

definition basename :: "path \<Rightarrow> string" where
  "basename p = rev (takeWhile (\<lambda>c. c \<noteq> CHR ''/'') (dropWhile (\<lambda>c. c = CHR ''/'') (rev p)))"

definition path_join :: "path \<Rightarrow> string \<Rightarrow> path" where
  "path_join a b =
     (if startswith b ''/'' then b
      else if a = [] \<or> last a = CHR ''/'' then a @ b
      else a @ ''/'' @ b)"

text \<open>A file can be created at a path whose directory exists: the current directory
  (\<open>dirname\<close> empty), the root, or a directory of the file system.\<close>

definition parent_ok :: "filesystem \<Rightarrow> path \<Rightarrow> bool" where
  "parent_ok fs p \<longleftrightarrow>
     (let d = dirname p in d = [] \<or> list_all (\<lambda>c. c = CHR ''/'') d \<or> isdir fs d)"

text \<open>The directories \<^verbatim>\<open>os.makedirs(d)\<close> needs: every proper prefix of \<open>d\<close> that ends before
  a slash (and not in one), then \<open>d\<close> itself.\<close>

definition dir_chain :: "path \<Rightarrow> path list" where
  "dir_chain d =
     map (\<lambda>k. take k d) (filter (\<lambda>k. d ! k = CHR ''/'' \<and> d ! (k - 1) \<noteq> CHR ''/'') [1..<length d]) @ [d]"

definition makedirs :: "filesystem \<Rightarrow> path \<Rightarrow> (error + unit) \<times> filesystem" where
  "makedirs fs d =
     (if isdir fs d \<or> list_ex (isfile fs) (dir_chain d) then (Inl OSError, fs)
      else (Inr (), fs\<lparr>dirs := dirs fs @ filter (\<lambda>p. \<not> isdir fs p) (dir_chain d)\<rparr>))"

definition make_parent_dirs :: "filesystem \<Rightarrow> path \<Rightarrow> (error + unit) \<times> filesystem" where
  "make_parent_dirs fs p =
     (let dir = dirname p in
      if dir \<noteq> [] \<and> \<not> isdir fs dir then makedirs fs dir else (Inr (), fs))"

text \<open>
  \<^verbatim>\<open>shutil.move(src, dst)\<close> for a source that is a regular file (the only sources
  \<^verbatim>\<open>transform_file\<close> moves; a source that is no regular file is an error here). A
  destination that is a directory receives the file under its own name, unless that
  name exists there. \<^verbatim>\<open>os.rename\<close> replaces a destination file; when it fails, so does
  the copy \<^verbatim>\<open>shutil.move\<close> falls back to.
\<close>

definition shutil_move :: "filesystem \<Rightarrow> path \<Rightarrow> path \<Rightarrow> (error + unit) \<times> filesystem" where
  "shutil_move fs src dst =
     (let real_dst = (if isdir fs dst then path_join dst (basename src) else dst) in
      if isdir fs dst \<and> path_exists fs real_dst then (Inl ShutilError, fs)
      else case lookup fs src of
             None \<Rightarrow> (Inl IOError, fs)
           | Some f \<Rightarrow>
               if \<not> parent_ok fs real_dst then (Inl IOError, fs)
               else if real_dst = src then (Inr (), fs)
               else (Inr (), fs\<lparr>files := AList.update real_dst f (AList.delete src (files fs))\<rparr>))"

definition move_file :: "filesystem \<Rightarrow> path \<Rightarrow> path \<Rightarrow> bool \<Rightarrow> (error + unit) \<times> filesystem" where
  "move_file fs source_path dest_path clobber =
     shutil_move fs source_path (if \<not> clobber then free_path fs dest_path 1 else dest_path)"

definition os_remove :: "filesystem \<Rightarrow> path \<Rightarrow> (error + unit) \<times> filesystem" where
  "os_remove fs p =
     (if isfile fs p then (Inr (), fs\<lparr>files := AList.delete p (files fs)\<rparr>) else (Inl OSError, fs))"

text \<open>\<^verbatim>\<open>os.open(p, os.O_WRONLY | os.O_CREAT, perms)\<close>: an existing file is opened as it is
  (nothing is truncated), a missing one is created empty with the mode \<open>perms\<close> (the
  process umask is taken to be 0).\<close>

definition os_open_creat :: "filesystem \<Rightarrow> path \<Rightarrow> nat \<Rightarrow> (error + unit) \<times> filesystem" where
  "os_open_creat fs p perms =
     (if isdir fs p then (Inl OSError, fs)
      else if isfile fs p then (Inr (), fs)
      else if \<not> parent_ok fs p then (Inl OSError, fs)
      else (Inr (), fs\<lparr>files := AList.update p \<lparr>content = [], mode = perms\<rparr> (files fs)\<rparr>))"

text \<open>
  Writing \<open>data\<close> from offset 0 into the open file at \<open>p\<close>. \<open>fault p = Some k\<close> says that
  the device takes \<open>k\<close> bytes of this file and then fails: the bytes taken are in the
  file, and the write (or the flush when the file is closed) raises \<^verbatim>\<open>IOError\<close>.
\<close>

definition write_output ::
  "(path \<Rightarrow> nat option) \<Rightarrow> filesystem \<Rightarrow> path \<Rightarrow> string \<Rightarrow> (error + unit) \<times> filesystem" where
  "write_output fault fs p data =
     (case lookup fs p of
        None \<Rightarrow> (Inl IOError, fs)
      | Some f \<Rightarrow>
          (let written = (case fault p of None \<Rightarrow> data | Some k \<Rightarrow> take k data);
               fs' = fs\<lparr>files := AList.update p (f\<lparr>content := written @ drop (length written) (content f)\<rparr>) (files fs)\<rparr>
           in if length written < length data then (Inl IOError, fs') else (Inr (), fs')))"

text \<open>The lines a binary file yields when iterated: each ends with its \<^verbatim>\<open>\n\<close>, but for the
  last when the file does not end with one.\<close>

fun file_lines_from :: "string \<Rightarrow> string \<Rightarrow> string list" where
  "file_lines_from cur [] = (if cur = [] then [] else [cur])"
| "file_lines_from cur (c # cs) =
     (if c = LF then (cur @ [c]) # file_lines_from [] cs else file_lines_from (cur @ [c]) cs)"

text \<open>
  \<^verbatim>\<open>transform_stream\<close>: the counts it returns and all it writes to \<open>output\<close>. With no
  transform the line loop reads \<^verbatim>\<open>new_line\<close> before any assignment, and the other branch
  unpacks the contents into two names. Only the line loop adds to \<open>counts\<close>.
\<close>

definition transform_stream ::
  "(string \<Rightarrow> string \<times> MatchCounts) option \<Rightarrow> string \<Rightarrow> bool \<Rightarrow> error + (MatchCounts \<times> string)" where
  "transform_stream transform input by_line =
     (if by_line then
        (case transform of
           None \<Rightarrow> (if file_lines_from [] input = [] then Inr (\<lparr>found = 0, valid = 0\<rparr>, [])
                     else Inl UnboundLocalError)
         | Some t \<Rightarrow>
             Inr (foldl MatchCounts_add \<lparr>found = 0, valid = 0\<rparr> (map (\<lambda>line. snd (t line)) (file_lines_from [] input)),
                  concat (map (\<lambda>line. fst (t line)) (file_lines_from [] input))))
      else
        (case transform of
           None \<Rightarrow> (case input of [new_contents, new_counts] \<Rightarrow> Inr (\<lparr>found = 0, valid = 0\<rparr>, [new_contents])
                     | _ \<Rightarrow> Inl ValueError)
         | Some t \<Rightarrow> Inr (\<lparr>found = 0, valid = 0\<rparr>, fst (t input))))"

text \<open>
  \<^verbatim>\<open>transform_file\<close>. The source is read in full and the output then written to the
  temporary file; each step that fails ends the function with its exception and the
  file system as it is at that point.
\<close>

definition transform_file ::
  "(path \<Rightarrow> nat option) \<Rightarrow> filesystem \<Rightarrow> (string \<Rightarrow> string \<times> MatchCounts) option \<Rightarrow> path \<Rightarrow> path
     \<Rightarrow> string \<Rightarrow> string \<Rightarrow> bool \<Rightarrow> bool \<Rightarrow> (error + MatchCounts) \<times> filesystem" where
  "transform_file fault fs transform source_path dest_path orig_suffix temp_suffix by_line dry_run =
     (case transform of
        None \<Rightarrow> (Inr \<lparr>found = 0, valid = 0\<rparr>, fs)
      | Some t \<Rightarrow>
          (let orig_path = source_path @ orig_suffix; temp_path = dest_path @ temp_suffix in
           case make_parent_dirs fs temp_path of
             (Inl e, fs1) \<Rightarrow> (Inl e, fs1)
           | (Inr _, fs1) \<Rightarrow>
               if \<not> path_exists fs1 source_path then (Inl OSError, fs1)
               else case lookup fs1 source_path of
                 None \<Rightarrow> (Inl IOError, fs1)
               | Some src \<Rightarrow>
                   (let perms = mode src AND 0x1FF in
                    case os_open_creat fs1 temp_path perms of
                      (Inl e, fs2) \<Rightarrow> (Inl e, fs2)
                    | (Inr _, fs2) \<Rightarrow>
                        (case transform_stream (Some t) (content src) by_line of
                           Inl e \<Rightarrow> (Inl e, fs2)
                         | Inr (counts, data) \<Rightarrow>
                             (case write_output fault fs2 temp_path data of
                                (Inl e, fs3) \<Rightarrow> (Inl e, fs3)
                              | (Inr _, fs3) \<Rightarrow>
                                  if \<not> dry_run \<and> found counts > 0 then
                                    (case move_file fs3 source_path orig_path True of
                                       (Inl e, fs4) \<Rightarrow> (Inl e, fs4)
                                     | (Inr _, fs4) \<Rightarrow>
                                         (case move_file fs4 temp_path dest_path False of
                                            (Inl e, fs5) \<Rightarrow> (Inl e, fs5)
                                          | (Inr _, fs5) \<Rightarrow> (Inr counts, fs5)))
                                  else
                                    (case os_remove fs3 temp_path of
                                       (Inl e, fs4) \<Rightarrow> (Inl e, fs4)
                                     | (Inr _, fs4) \<Rightarrow> (Inr counts, fs4)))))))"

definition rewrite_file ::
  "re_module \<Rightarrow> (path \<Rightarrow> nat option) \<Rightarrow> filesystem \<Rightarrow> path \<Rightarrow> (regex \<times> string) list
     \<Rightarrow> bool \<Rightarrow> bool \<Rightarrow> bool \<Rightarrow> bool \<Rightarrow> (error + unit) \<times> filesystem" where
  "rewrite_file re fault fs p patterns do_renames do_contents by_line dry_run =
     (let dest_path = (if do_renames then fst (multi_replace re p patterns) else p);
          transform = (if do_contents then Some (\<lambda>contents. multi_replace re contents patterns) else None)
      in case transform_file fault fs transform p dest_path BACKUP_SUFFIX TEMP_SUFFIX by_line dry_run of
           (Inl e, fs') \<Rightarrow> (Inl e, fs')
         | (Inr counts, fs') \<Rightarrow> (Inr (), fs'))"

definition endswith :: "string \<Rightarrow> string \<Rightarrow> bool" where
  "endswith s p \<longleftrightarrow> startswith (rev s) (rev p)"

text \<open>
  \<^verbatim>\<open>walk_files\<close>. \<open>os_walk fs keep top\<close> stands for \<^verbatim>\<open>os.walk(top)\<close> under the loop's pruning
  \<^verbatim>\<open>dirs[:] = [d for d in dirs if keep(d)]\<close>: the \<open>(root, files)\<close> of every directory
  visited, in order. \<open>exclude f\<close> is \<^verbatim>\<open>exclude_re.match(f)\<close>.
\<close>

fun walk_files ::
  "(filesystem \<Rightarrow> (string \<Rightarrow> bool) \<Rightarrow> path \<Rightarrow> (path \<times> string list) list) \<Rightarrow> filesystem
     \<Rightarrow> (string \<Rightarrow> bool) \<Rightarrow> path list \<Rightarrow> error + path list" where
  "walk_files os_walk fs exclude [] = Inr []"
| "walk_files os_walk fs exclude (p # paths) =
     (if \<not> path_exists fs p then Inl (PathNotFound p)
      else
        (let out =
           (if isfile fs p then [p]
            else concat (map (\<lambda>(root, fnames).
                   map (path_join root)
                     (filter (\<lambda>f. \<not> exclude f \<and> \<not> endswith f BACKUP_SUFFIX \<and> \<not> endswith f TEMP_SUFFIX) fnames))
                   (os_walk fs (\<lambda>d. \<not> exclude d) p)))
         in case walk_files os_walk fs exclude paths of
              Inl e \<Rightarrow> Inl e
            | Inr rest \<Rightarrow> Inr (out @ rest)))"

text \<open>The loop of \<^verbatim>\<open>rewrite_files\<close>: an exception of \<^verbatim>\<open>rewrite_file\<close> is not handled and ends it.\<close>

fun rewrite_each ::
  "re_module \<Rightarrow> (path \<Rightarrow> nat option) \<Rightarrow> filesystem \<Rightarrow> path list \<Rightarrow> (regex \<times> string) list
     \<Rightarrow> bool \<Rightarrow> bool \<Rightarrow> bool \<Rightarrow> bool \<Rightarrow> (error + unit) \<times> filesystem" where
  "rewrite_each re fault fs [] patterns do_renames do_contents by_line dry_run = (Inr (), fs)"
| "rewrite_each re fault fs (p # paths) patterns do_renames do_contents by_line dry_run =
     (case rewrite_file re fault fs p patterns do_renames do_contents by_line dry_run of
        (Inl e, fs') \<Rightarrow> (Inl e, fs')
      | (Inr _, fs') \<Rightarrow> rewrite_each re fault fs' paths patterns do_renames do_contents by_line dry_run)"

definition rewrite_files ::
  "(filesystem \<Rightarrow> (string \<Rightarrow> bool) \<Rightarrow> path \<Rightarrow> (path \<times> string list) list) \<Rightarrow> re_module
     \<Rightarrow> (path \<Rightarrow> nat option) \<Rightarrow> filesystem \<Rightarrow> path list \<Rightarrow> (regex \<times> string) list
     \<Rightarrow> bool \<Rightarrow> bool \<Rightarrow> (string \<Rightarrow> bool) \<Rightarrow> bool \<Rightarrow> bool \<Rightarrow> (error + unit) \<times> filesystem" where
  "rewrite_files os_walk re fault fs root_paths patterns do_renames do_contents exclude by_line dry_run =
     (case walk_files os_walk fs exclude root_paths of
        Inl e \<Rightarrow> (Inl e, fs)
      | Inr paths \<Rightarrow> rewrite_each re fault fs paths patterns do_renames do_contents by_line dry_run)"

subsection \<open>The stable order of the specification, and inputs for the concrete runs\<close>

text \<open>
  The specification's reading of the duplicate removal in \<^verbatim>\<open>parse_patterns\<close>: every pair
  stays where it first occurs.
\<close>

definition spec_stable_dedup :: "'a list \<Rightarrow> 'a list" where
  "spec_stable_dedup xs = rev (remdups (rev xs))"

text \<open>Three files, for the collision-safe move of \<^verbatim>\<open>new\<close> to \<^verbatim>\<open>out\<close>.\<close>

definition fs_out :: "filesystem" where
  "fs_out = \<lparr>files = [(''out'', \<lparr>content = ''first'', mode = 420\<rparr>),
                       (''out.1'', \<lparr>content = ''second'', mode = 420\<rparr>),
                       (''new'', \<lparr>content = ''third'', mode = 384\<rparr>)], dirs = []\<rparr>"

text \<open>
  Two files to rewrite, an older backup of the first, and a device that takes two bytes
  of \<^verbatim>\<open>a.repren.tmp\<close> and then fails; \<open>fs_ab_failed\<close> is the file system after the failed
  write. (The mode 932 is octal 1644; its permission bits are 420, octal 644.)
\<close>

definition fs_ab :: "filesystem" where
  "fs_ab = \<lparr>files = [(''a'', \<lparr>content = ''foo'' @ [LF] @ ''x foo'', mode = 932\<rparr>),
                      (''a.orig'', \<lparr>content = ''old'', mode = 420\<rparr>),
                      (''b'', \<lparr>content = ''foo'' @ [LF], mode = 420\<rparr>)], dirs = []\<rparr>"

definition fault_a :: "path \<Rightarrow> nat option" where
  "fault_a p = (if p = ''a.repren.tmp'' then Some 2 else None)"

definition fs_ab_failed :: "filesystem" where
  "fs_ab_failed = \<lparr>files = [(''a'', \<lparr>content = ''foo'' @ [LF] @ ''x foo'', mode = 932\<rparr>),
                      (''a.orig'', \<lparr>content = ''old'', mode = 420\<rparr>),
                      (''b'', \<lparr>content = ''foo'' @ [LF], mode = 420\<rparr>),
                      (''a.repren.tmp'', \<lparr>content = ''ba'', mode = 420\<rparr>)], dirs = []\<rparr>"

text \<open>
  A file that carries the suffix of temporary files in its own name, and a device that
  takes two bytes of it and then fails.
\<close>

definition fs_alias :: "filesystem" where
  "fs_alias = \<lparr>files = [(''x.repren.tmp'', \<lparr>content = ''foo'' @ [LF] @ ''x foo'', mode = 420\<rparr>)],
                 dirs = []\<rparr>"

definition fault_x :: "path \<Rightarrow> nat option" where
  "fault_x p = (if p = ''x.repren.tmp'' then Some 2 else None)"

text \<open>The transform \<^verbatim>\<open>rewrite_file\<close> builds for the one rule \<^verbatim>\<open>foo -> bar\<close>.\<close>

definition foo_to_bar :: "string \<Rightarrow> string \<times> MatchCounts" where
  "foo_to_bar contents = multi_replace plain_re contents [(lit ''foo'', ''bar'')]"

text \<open>\<^verbatim>\<open>os.walk\<close> where no argument is a directory.\<close>

definition no_walk :: "filesystem \<Rightarrow> (string \<Rightarrow> bool) \<Rightarrow> path \<Rightarrow> (path \<times> string list) list" where
  "no_walk fs keep start = []"

section \<open>Properties\<close>

subsection \<open>Match resolution\<close>

text \<open>\<^verbatim>\<open>bisect_left\<close> on a sorted list returns the index that splits it into the elements
  below \<open>x\<close> and the elements from \<open>x\<close> on.\<close>

lemma bisect_left_loop_spec:
  assumes "sorted a" and "lo \<le> hi" and "hi \<le> length a"
    and "\<forall>j<lo. a ! j < x" and "\<forall>j. hi \<le> j \<and> j < length a \<longrightarrow> x \<le> a ! j"
  shows "bisect_left_loop a x lo hi \<le> length a
       \<and> (\<forall>j<bisect_left_loop a x lo hi. a ! j < x)
       \<and> (\<forall>j. bisect_left_loop a x lo hi \<le> j \<and> j < length a \<longrightarrow> x \<le> a ! j)"
  using assms
proof (induction a x lo hi rule: bisect_left_loop.induct)
  case (1 a x lo hi)
  show ?case
  proof (cases "lo < hi")
    case False
    with "1.prems" have "lo = hi" by simp
    with False "1.prems" show ?thesis by (subst (1 2 3) bisect_left_loop.simps) simp
  next
    case True
    let ?mid = "(lo + hi) div 2"
    have mid: "lo \<le> ?mid" "?mid < hi" using True by auto
    show ?thesis
    proof (cases "a ! ?mid < x")
      case lt: True
      have below: "\<forall>j<?mid + 1. a ! j < x"
      proof (intro allI impI)
        fix j assume "j < ?mid + 1"
        then have "j \<le> ?mid" by simp
        with \<open>sorted a\<close> mid "1.prems"(3) have "a ! j \<le> a ! ?mid"
          by (auto intro!: sorted_nth_mono)
        with lt show "a ! j < x" by simp
      qed
      have "bisect_left_loop a x lo hi = bisect_left_loop a x (?mid + 1) hi"
        using True lt by (subst bisect_left_loop.simps) (simp add: Let_def)
      moreover have "bisect_left_loop a x (?mid + 1) hi \<le> length a
       \<and> (\<forall>j<bisect_left_loop a x (?mid + 1) hi. a ! j < x)
       \<and> (\<forall>j. bisect_left_loop a x (?mid + 1) hi \<le> j \<and> j < length a \<longrightarrow> x \<le> a ! j)"
        using "1.IH"(1)[OF True refl lt "1.prems"(1) _ "1.prems"(3) below "1.prems"(5)] mid by simp
      ultimately show ?thesis by simp
    next
      case ge: False
      have above: "\<forall>j. ?mid \<le> j \<and> j < length a \<longrightarrow> x \<le> a ! j"
      proof (intro allI impI)
        fix j assume "?mid \<le> j \<and> j < length a"
        with \<open>sorted a\<close> have "a ! ?mid \<le> a ! j" by (auto intro!: sorted_nth_mono)
        with ge show "x \<le> a ! j" by simp
      qed
      have "bisect_left_loop a x lo hi = bisect_left_loop a x lo ?mid"
        using True ge by (subst bisect_left_loop.simps) (simp add: Let_def)
      moreover have "bisect_left_loop a x lo ?mid \<le> length a
       \<and> (\<forall>j<bisect_left_loop a x lo ?mid. a ! j < x)
       \<and> (\<forall>j. bisect_left_loop a x lo ?mid \<le> j \<and> j < length a \<longrightarrow> x \<le> a ! j)"
        using "1.IH"(2)[OF True refl ge "1.prems"(1) _ _ "1.prems"(4) above] mid "1.prems"(3) by simp
      ultimately show ?thesis by simp
    qed
  qed
qed

lemma bisect_left_spec:
  assumes "sorted a"
  shows "bisect_left a x \<le> length a
       \<and> (\<forall>j<bisect_left a x. a ! j < x)
       \<and> (\<forall>j. bisect_left a x \<le> j \<and> j < length a \<longrightarrow> x \<le> a ! j)"
  unfolding bisect_left_def using bisect_left_loop_spec[OF assms, of 0 "length a" x] by simp

lemma ends_before_sorted_starts:
  assumes "list_all (\<lambda>mr. m_start (fst mr) < m_end (fst mr)) sel" and "sorted_wrt ends_before sel"
  shows "sorted (map (\<lambda>mr. m_start (fst mr)) sel)"
  using assms
proof (induction sel)
  case Nil
  then show ?case by simp
next
  case (Cons a sel)
  have "\<forall>b \<in> set sel. m_start (fst a) \<le> m_start (fst b)"
  proof
    fix b assume "b \<in> set sel"
    with Cons.prems(2) have "m_end (fst a) \<le> m_start (fst b)" by (simp add: ends_before_def)
    moreover from Cons.prems(1) have "m_start (fst a) < m_end (fst a)" by simp
    ultimately show "m_start (fst a) \<le> m_start (fst b)" by simp
  qed
  with Cons show ?case by simp
qed

lemma sort_drop_step_inv:
  assumes inv: "selection_inv st" and ne: "m_start (fst mr) < m_end (fst mr)"
  shows "selection_inv (sort_drop_step st mr)"
proof -
  obtain sel starts where st: "st = (sel, starts)" by (cases st)
  from inv st have starts: "starts = map (\<lambda>mr. m_start (fst mr)) sel"
    and nes: "list_all (\<lambda>mr. m_start (fst mr) < m_end (fst mr)) sel"
    and chain: "sorted_wrt ends_before sel"
    by (simp_all add: selection_inv_def)
  have srt: "sorted starts" unfolding starts by (rule ends_before_sorted_starts[OF nes chain])
  let ?x = "m_start (fst mr)"
  let ?i = "bisect_left starts ?x"
  from bisect_left_spec[OF srt, of ?x] have
    i_le: "?i \<le> length sel" and
    below: "\<And>j. j < ?i \<Longrightarrow> m_start (fst (sel ! j)) < ?x" and
    above: "\<And>j. ?i \<le> j \<Longrightarrow> j < length sel \<Longrightarrow> ?x \<le> m_start (fst (sel ! j))"
    unfolding starts by auto
  show ?thesis
  proof (cases "(?i > 0 \<and> overlap (fst (sel ! (?i - 1))) (fst mr))
               \<or> (?i < length sel \<and> overlap (fst (sel ! ?i)) (fst mr))")
    case True
    then have "sort_drop_step st mr = st" by (auto simp: sort_drop_step_def st Let_def)
    with inv show ?thesis by simp
  next
    case False
    then have step: "sort_drop_step st mr = (list_insert sel ?i mr, list_insert starts ?i ?x)"
      by (auto simp: sort_drop_step_def st Let_def)
    have nth_ne: "\<And>j. j < length sel \<Longrightarrow> m_start (fst (sel ! j)) < m_end (fst (sel ! j))"
      using nes by (simp add: list_all_length)
    have chain_nth: "\<And>j k. j < k \<Longrightarrow> k < length sel \<Longrightarrow> m_end (fst (sel ! j)) \<le> m_start (fst (sel ! k))"
      using chain by (auto simp: sorted_wrt_iff_nth_less ends_before_def)
    have before: "\<And>a. a \<in> set (take ?i sel) \<Longrightarrow> ends_before a mr"
    proof -
      fix a assume "a \<in> set (take ?i sel)"
      then obtain j where j: "j < ?i" "a = sel ! j" using i_le by (auto simp: in_set_conv_nth)
      then have pos: "0 < ?i" by simp
      with False have "\<not> overlap (fst (sel ! (?i - 1))) (fst mr)" by simp
      moreover have "m_start (fst (sel ! (?i - 1))) < m_end (fst mr)"
        using below[of "?i - 1"] pos ne by simp
      ultimately have prev: "m_end (fst (sel ! (?i - 1))) \<le> ?x" by (simp add: overlap_def)
      show "ends_before a mr"
      proof (cases "j = ?i - 1")
        case True
        with prev j show ?thesis by (simp add: ends_before_def)
      next
        case False
        with j have "j < ?i - 1" by simp
        then have "m_end (fst (sel ! j)) \<le> m_start (fst (sel ! (?i - 1)))"
          using chain_nth[of j "?i - 1"] i_le pos by simp
        moreover have "m_start (fst (sel ! (?i - 1))) < ?x" using below[of "?i - 1"] pos by simp
        ultimately show ?thesis using j by (simp add: ends_before_def)
      qed
    qed
    have after: "\<And>b. b \<in> set (drop ?i sel) \<Longrightarrow> ends_before mr b"
    proof -
      fix b assume "b \<in> set (drop ?i sel)"
      then obtain j where "j < length (drop ?i sel)" "drop ?i sel ! j = b"
        unfolding in_set_conv_nth by blast
      then have j: "?i + j < length sel" "b = sel ! (?i + j)"
        using i_le by auto
      then have lt: "?i < length sel" by simp
      with False have "\<not> overlap (fst (sel ! ?i)) (fst mr)" by simp
      moreover have "?x < m_end (fst (sel ! ?i))"
        using above[of ?i] lt nth_ne[of ?i] by simp
      ultimately have nxt: "m_end (fst mr) \<le> m_start (fst (sel ! ?i))" by (simp add: overlap_def)
      show "ends_before mr b"
      proof (cases j)
        case 0
        with nxt j show ?thesis by (simp add: ends_before_def)
      next
        case (Suc j')
        then have "m_end (fst (sel ! ?i)) \<le> m_start (fst (sel ! (?i + j)))"
          using chain_nth[of ?i "?i + j"] j by simp
        with nxt nth_ne[OF lt] j show ?thesis by (simp add: ends_before_def)
      qed
    qed
    have split: "sel = take ?i sel @ drop ?i sel" by simp
    have "sorted_wrt ends_before (take ?i sel @ drop ?i sel)" using chain by simp
    then have parts: "sorted_wrt ends_before (take ?i sel)" "sorted_wrt ends_before (drop ?i sel)"
      "\<forall>a \<in> set (take ?i sel). \<forall>b \<in> set (drop ?i sel). ends_before a b"
      unfolding sorted_wrt_append by auto
    have "sorted_wrt ends_before (list_insert sel ?i mr)"
      unfolding list_insert_def sorted_wrt_append using parts before after by auto
    moreover have "list_all (\<lambda>mr. m_start (fst mr) < m_end (fst mr)) (list_insert sel ?i mr)"
      using nes ne unfolding list_insert_def list_all_iff by (auto dest: in_set_takeD in_set_dropD)
    moreover have "list_insert starts ?i ?x = map (\<lambda>mr. m_start (fst mr)) (list_insert sel ?i mr)"
      unfolding list_insert_def starts by (simp add: take_map drop_map)
    ultimately show ?thesis unfolding step selection_inv_def by simp
  qed
qed

lemma foldl_sort_drop_step_inv:
  assumes "selection_inv st" and "list_all (\<lambda>mr. m_start (fst mr) < m_end (fst mr)) matches"
  shows "selection_inv (foldl sort_drop_step st matches)"
  using assms
proof (induction matches arbitrary: st)
  case Nil
  then show ?case by simp
next
  case (Cons mr matches)
  then show ?case by (simp add: sort_drop_step_inv)
qed

lemma sort_drop_step_subset: "set (fst (sort_drop_step st mr)) \<subseteq> insert mr (set (fst st))"
  by (auto simp: sort_drop_step_def Let_def list_insert_def dest: in_set_takeD in_set_dropD)

lemma foldl_sort_drop_step_subset:
  "set (fst (foldl sort_drop_step st matches)) \<subseteq> set (fst st) \<union> set matches"
proof (induction matches arbitrary: st)
  case Nil
  then show ?case by simp
next
  case (Cons mr matches)
  from Cons.IH[of "sort_drop_step st mr"] sort_drop_step_subset[of st mr]
  show ?case by auto
qed

text \<open>
  When every collected match is non-empty, the selection of \<^verbatim>\<open>_sort_drop_overlaps\<close> is
  sorted by start offset, no two of its matches overlap, and it holds collected matches
  only: comparing a new match with its two neighbours at the insertion point is enough
  then.
\<close>

lemma nonempty_matches_selection_disjoint:
  assumes "list_all (\<lambda>mr. m_start (fst mr) < m_end (fst mr)) matches"
  shows "sorted (map (\<lambda>mr. m_start (fst mr)) (sort_drop_overlaps matches))
       \<and> (\<forall>i j. i < j \<and> j < length (sort_drop_overlaps matches) \<longrightarrow>
             \<not> overlap (fst (sort_drop_overlaps matches ! i)) (fst (sort_drop_overlaps matches ! j))
           \<and> \<not> overlap (fst (sort_drop_overlaps matches ! j)) (fst (sort_drop_overlaps matches ! i)))
       \<and> set (sort_drop_overlaps matches) \<subseteq> set matches"
proof -
  let ?sel = "sort_drop_overlaps matches"
  have "selection_inv ([], [])" by (simp add: selection_inv_def)
  from foldl_sort_drop_step_inv[OF this assms]
  have nes: "list_all (\<lambda>mr. m_start (fst mr) < m_end (fst mr)) ?sel"
    and chain: "sorted_wrt ends_before ?sel"
    by (simp_all add: selection_inv_def sort_drop_overlaps_def)
  have "sorted (map (\<lambda>mr. m_start (fst mr)) ?sel)" by (rule ends_before_sorted_starts[OF nes chain])
  moreover have "\<forall>i j. i < j \<and> j < length ?sel \<longrightarrow>
      \<not> overlap (fst (?sel ! i)) (fst (?sel ! j)) \<and> \<not> overlap (fst (?sel ! j)) (fst (?sel ! i))"
  proof (intro allI impI)
    fix i j assume "i < j \<and> j < length ?sel"
    with chain have "m_end (fst (?sel ! i)) \<le> m_start (fst (?sel ! j))"
      by (simp add: sorted_wrt_iff_nth_less ends_before_def)
    then show "\<not> overlap (fst (?sel ! i)) (fst (?sel ! j)) \<and> \<not> overlap (fst (?sel ! j)) (fst (?sel ! i))"
      by (simp add: overlap_def)
  qed
  moreover have "set ?sel \<subseteq> set matches"
    using foldl_sort_drop_step_subset[of "([], [])" matches] by (simp add: sort_drop_overlaps_def)
  ultimately show ?thesis by blast
qed

text \<open>The selection is sorted by start offset in every run, empty matches or not.\<close>

lemma sorted_list_insert:
  assumes "sorted xs" and "i \<le> length xs"
    and "\<forall>j<i. xs ! j < x" and "\<forall>j. i \<le> j \<and> j < length xs \<longrightarrow> x \<le> xs ! j"
  shows "sorted (list_insert xs i (x::nat))"
proof -
  have a: "\<forall>y \<in> set (take i xs). y \<le> x"
  proof
    fix y assume "y \<in> set (take i xs)"
    then obtain j where "j < length (take i xs)" "take i xs ! j = y"
      unfolding in_set_conv_nth by blast
    with assms(2,3) show "y \<le> x" by (auto simp: less_imp_le)
  qed
  have b: "\<forall>y \<in> set (drop i xs). x \<le> y"
  proof
    fix y assume "y \<in> set (drop i xs)"
    then obtain j where "j < length (drop i xs)" "drop i xs ! j = y"
      unfolding in_set_conv_nth by blast
    with assms(2,4) show "x \<le> y" by auto
  qed
  have "sorted (take i xs @ drop i xs)" using assms(1) by simp
  then have "sorted (take i xs)" "sorted (drop i xs)"
    "\<forall>y \<in> set (take i xs). \<forall>z \<in> set (drop i xs). y \<le> z"
    unfolding sorted_append by auto
  with a b show ?thesis unfolding list_insert_def sorted_append by auto
qed

lemma sort_drop_step_starts_inv:
  assumes "starts_inv st"
  shows "starts_inv (sort_drop_step st mr)"
proof -
  obtain sel starts where st: "st = (sel, starts)" by (cases st)
  from assms have "snd st = map (\<lambda>mr. m_start (fst mr)) (fst st)" and "sorted (snd st)"
    unfolding starts_inv_def by blast+
  then have starts: "starts = map (\<lambda>mr. m_start (fst mr)) sel" and srt: "sorted starts"
    unfolding st fst_conv snd_conv .
  let ?x = "m_start (fst mr)"
  let ?i = "bisect_left starts ?x"
  from bisect_left_spec[OF srt, of ?x] have spec:
    "?i \<le> length starts" "\<forall>j<?i. starts ! j < ?x" "\<forall>j. ?i \<le> j \<and> j < length starts \<longrightarrow> ?x \<le> starts ! j"
    by auto
  have "sorted (list_insert starts ?i ?x)" by (rule sorted_list_insert[OF srt spec])
  moreover have "list_insert starts ?i ?x = map (\<lambda>mr. m_start (fst mr)) (list_insert sel ?i mr)"
    unfolding list_insert_def starts by (simp add: take_map drop_map)
  moreover have "sorted (map (\<lambda>mr. m_start (fst mr)) sel)" using srt unfolding starts .
  ultimately show ?thesis unfolding st starts
    by (auto simp: sort_drop_step_def Let_def starts_inv_def)
qed

lemma foldl_sort_drop_step_starts_inv:
  "starts_inv st \<Longrightarrow> starts_inv (foldl sort_drop_step st matches)"
  by (induction matches arbitrary: st) (simp_all add: sort_drop_step_starts_inv)

lemma selection_sorted_by_start:
  "sorted (map (\<lambda>mr. m_start (fst mr)) (sort_drop_overlaps matches))"
proof -
  have "starts_inv ([], [])" by (simp add: starts_inv_def)
  from foldl_sort_drop_step_starts_inv[OF this, of matches]
  have e: "snd (foldl sort_drop_step ([], []) matches)
             = map (\<lambda>mr. m_start (fst mr)) (fst (foldl sort_drop_step ([], []) matches))"
    and s: "sorted (snd (foldl sort_drop_step ([], []) matches))"
    unfolding starts_inv_def by blast+
  from s show ?thesis unfolding e sort_drop_overlaps_def .
qed

text \<open>
  C6 (order tie-break). With the rules \<^verbatim>\<open>[("a","X"), ("ab","Y")]\<close> and the buffer \<^verbatim>\<open>"ab"\<close>,
  \<^verbatim>\<open>multi_replace\<close> collects the match of \<^verbatim>\<open>a\<close> at offsets 0-1 and the match of \<^verbatim>\<open>ab\<close> at
  offsets 0-2, which overlap; the selection keeps the first rule's match only, and the
  output is \<^verbatim>\<open>"Xb"\<close> with two matches found and one applied.
\<close>

theorem order_tie_break:
  "collect_matches plain_re ''ab'' [(lit ''a'', ''X''), (lit ''ab'', ''Y'')] =
     [(\<lparr>m_start = 0, m_end = 1, m_group = ''a''\<rparr>, ''X''),
      (\<lparr>m_start = 0, m_end = 2, m_group = ''ab''\<rparr>, ''Y'')]
   \<and> overlap \<lparr>m_start = 0, m_end = 1, m_group = ''a''\<rparr> \<lparr>m_start = 0, m_end = 2, m_group = ''ab''\<rparr>
   \<and> sort_drop_overlaps (collect_matches plain_re ''ab'' [(lit ''a'', ''X''), (lit ''ab'', ''Y'')]) =
     [(\<lparr>m_start = 0, m_end = 1, m_group = ''a''\<rparr>, ''X'')]
   \<and> multi_replace plain_re ''ab'' [(lit ''a'', ''X''), (lit ''ab'', ''Y'')] =
     (''Xb'', \<lparr>found = 2, valid = 1\<rparr>)"
  by code_simp

text \<open>
  C7 (rename swap). The rules \<^verbatim>\<open>[("foo","bar"), ("bar","foo")]\<close> applied by \<^verbatim>\<open>multi_replace\<close>
  to \<^verbatim>\<open>"foo bar"\<close> give \<^verbatim>\<open>"bar foo"\<close>: both matches are found in the original buffer
  (offsets 0-3 and 4-7) before anything is replaced. Applying the two rules one after
  the other gives \<^verbatim>\<open>"foo foo"\<close> instead.
\<close>

theorem rename_swap:
  "collect_matches plain_re ''foo bar'' [(lit ''foo'', ''bar''), (lit ''bar'', ''foo'')] =
     [(\<lparr>m_start = 0, m_end = 3, m_group = ''foo''\<rparr>, ''bar''),
      (\<lparr>m_start = 4, m_end = 7, m_group = ''bar''\<rparr>, ''foo'')]
   \<and> multi_replace plain_re ''foo bar'' [(lit ''foo'', ''bar''), (lit ''bar'', ''foo'')] =
     (''bar foo'', \<lparr>found = 2, valid = 2\<rparr>)
   \<and> fst (multi_replace plain_re (fst (multi_replace plain_re ''foo bar'' [(lit ''foo'', ''bar'')]))
          [(lit ''bar'', ''foo'')]) = ''foo foo''"
  by code_simp

text \<open>
  C1 (selection sorted and free of overlaps), at the rules \<^verbatim>\<open>[("","X"), ("ab","Y")]\<close> and
  the buffer \<^verbatim>\<open>"ab"\<close>: the empty pattern matches at the offsets 0, 1 and 2, and all three
  matches are accepted. The match of \<^verbatim>\<open>ab\<close> at 0-2 is then compared with the accepted
  match at its insertion point only, the empty match at 0, which it does not overlap;
  it is accepted in front of it although it overlaps the empty match at offset 1. The
  selection is sorted by start offset (\<open>selection_sorted_by_start\<close>), but two of its
  matches overlap, and the output repeats the text that was replaced. With non-empty
  matches only this cannot happen (\<open>nonempty_matches_selection_disjoint\<close>).
\<close>

theorem empty_match_selection_overlaps:
  "sort_drop_overlaps (collect_matches plain_re ''ab'' [(lit [], ''X''), (lit ''ab'', ''Y'')]) =
     [(\<lparr>m_start = 0, m_end = 2, m_group = ''ab''\<rparr>, ''Y''),
      (\<lparr>m_start = 0, m_end = 0, m_group = []\<rparr>, ''X''),
      (\<lparr>m_start = 1, m_end = 1, m_group = []\<rparr>, ''X''),
      (\<lparr>m_start = 2, m_end = 2, m_group = []\<rparr>, ''X'')]
   \<and> overlap \<lparr>m_start = 0, m_end = 2, m_group = ''ab''\<rparr> \<lparr>m_start = 1, m_end = 1, m_group = []\<rparr>
   \<and> multi_replace plain_re ''ab'' [(lit [], ''X''), (lit ''ab'', ''Y'')] =
     (''YXaXbX'', \<lparr>found = 4, valid = 4\<rparr>)"
  by code_simp

subsection \<open>Comprehensions that may raise\<close>

lemma map_raise_Inr_iff:
  "(\<exists>ys. map_raise f xs = Inr ys) \<longleftrightarrow> (\<forall>x \<in> set xs. \<exists>y. f x = Inr y)"
  by (induction xs) (auto split: sum.splits)

lemma map_raise_length: "map_raise f xs = Inr ys \<Longrightarrow> length ys = length xs"
  by (induction xs arbitrary: ys) (auto split: sum.splits)

lemma map_raise_Inl: "map_raise f xs = Inl e \<Longrightarrow> \<exists>x \<in> set xs. f x = Inl e"
  by (induction xs) (auto split: sum.splits)

lemma map_raise_total:
  "(\<And>x. x \<in> set xs \<Longrightarrow> f x = Inr (g x)) \<Longrightarrow> map_raise f xs = Inr (map g xs)"
  by (induction xs) auto

lemma map_raise_list_all2:
  "map_raise f xs = Inr ys \<Longrightarrow> list_all2 (\<lambda>x y. f x = Inr y) xs ys"
  by (induction xs arbitrary: ys) (auto split: sum.splits)

subsection \<open>Pattern files\<close>

lemma split_on_nonempty: "split_on sep s \<noteq> []"
  by (cases s) (auto split: list.splits)

lemma length_split_on: "length (split_on sep s) = Suc (count_list s sep)"
  by (induction s) (auto split: list.splits simp: split_on_nonempty)

text \<open>
  What \<^verbatim>\<open>parse_patterns\<close> does with one line: a line whose stripped text starts with \<^verbatim>\<open>#\<close> is
  skipped; a blank line is fatal; a line that is no comment and whose number of tabs is
  not 1 (so that \<^verbatim>\<open>len(bits)\<close> is not 2) is fatal.
\<close>

lemma parse_line_comment:
  "startswith (strip line) ''#'' \<Longrightarrow> parse_line re literal word_breaks insensitive preserve_case line = Inr []"
  by (simp add: parse_line_def Let_def)

lemma parse_line_blank:
  "strip line = [] \<Longrightarrow>
     parse_line re literal word_breaks insensitive preserve_case line = Inl (InvalidLine (split_on TAB line))"
  by (simp add: parse_line_def Let_def startswith_def)

lemma parse_line_tab_count:
  "\<not> startswith (strip line) ''#'' \<Longrightarrow> count_list line TAB \<noteq> 1 \<Longrightarrow>
     parse_line re literal word_breaks insensitive preserve_case line = Inl (InvalidLine (split_on TAB line))"
  by (simp add: parse_line_def Let_def length_split_on)

text \<open>
  C5 (blank lines and comments), at a pattern file of three lines whose second line is
  empty: \<^verbatim>\<open>parse_patterns\<close> ends with the fatal error for the empty line (its \<^verbatim>\<open>bits\<close> are
  \<^verbatim>\<open>['']\<close>), although the module's documentation says that empty lines are fine. Without
  the empty line the two rules are returned, and a comment line is skipped.
\<close>

theorem blank_line_is_fatal:
  "parse_patterns plain_re (''foo'' @ [TAB] @ ''bar'' @ [LF] @ [LF] @ ''baz'' @ [TAB] @ ''qux'')
       False False False False
     = Inl (InvalidLine [[]])
   \<and> parse_patterns plain_re (''foo'' @ [TAB] @ ''bar'' @ [LF] @ ''baz'' @ [TAB] @ ''qux'')
       False False False False
     = Inr [(lit ''foo'', ''bar''), (lit ''baz'', ''qux'')]
   \<and> parse_patterns plain_re (''foo'' @ [TAB] @ ''bar'' @ [LF] @ '' # note'' @ [LF] @ ''baz'' @ [TAB] @ ''qux'')
       False False False False
     = Inr [(lit ''foo'', ''bar''), (lit ''baz'', ''qux'')]"
  by code_simp

lemma compile_pairs:
  assumes comp: "\<And>p rx. re_compile re p insensitive = Inr rx \<Longrightarrow> rx = \<lparr>pattern = p, ignorecase = insensitive\<rparr>"
    and ok: "map_raise
          (\<lambda>(regex_variant, replacement_variant).
             case re_compile re (word_break_wrap word_breaks regex_variant) insensitive of
               Inl e \<Rightarrow> Inl e
             | Inr compiled \<Rightarrow> Inr (compiled, replacement_variant)) pairs
        = Inr emitted"
  shows "emitted = map (\<lambda>(rv, pv). (\<lparr>pattern = word_break_wrap word_breaks rv, ignorecase = insensitive\<rparr>, pv)) pairs"
  using ok
proof (induction pairs arbitrary: emitted)
  case Nil
  then show ?case by simp
next
  case (Cons a pairs)
  obtain rv pv where a: "a = (rv, pv)" by (cases a)
  from Cons.prems a obtain compiled rest where
    c: "re_compile re (word_break_wrap word_breaks rv) insensitive = Inr compiled"
    and r: "map_raise
          (\<lambda>(regex_variant, replacement_variant).
             case re_compile re (word_break_wrap word_breaks regex_variant) insensitive of
               Inl e \<Rightarrow> Inl e
             | Inr compiled \<Rightarrow> Inr (compiled, replacement_variant)) pairs
        = Inr rest"
    and e: "emitted = (compiled, pv) # rest"
    by (auto split: sum.splits)
  from comp[OF c] have "compiled = \<lparr>pattern = word_break_wrap word_breaks rv, ignorecase = insensitive\<rparr>" .
  with Cons.IH[OF r] e a show ?case by simp
qed

lemma sort_remdups_strict:
  fixes xs :: "('a::linorder) list"
  shows "sorted_wrt (<) (sort (remdups xs))" and "set (sort (remdups xs)) = set xs"
proof -
  have "sorted (sort (remdups xs))" and "distinct (sort (remdups xs))" by simp_all
  then show "sorted_wrt (<) (sort (remdups xs))" by (simp add: strict_sorted_iff)
  show "set (sort (remdups xs)) = set xs" by simp
qed

lemma parse_line_preserve_case:
  assumes ok: "parse_line re literal word_breaks insensitive True line = Inr emitted"
    and comp: "\<And>p rx. re_compile re p insensitive = Inr rx \<Longrightarrow> rx = \<lparr>pattern = p, ignorecase = insensitive\<rparr>"
  shows "if startswith (strip line) ''#'' then emitted = []
         else \<exists>regex replacement rs ps pairs.
                split_on TAB line = [regex, replacement]
              \<and> all_case_variants (if literal then re_escape re regex else regex) = Inr rs
              \<and> all_case_variants replacement = Inr ps
              \<and> sorted_wrt (<) pairs
              \<and> set pairs = set (zip rs ps) \<union> {(if literal then re_escape re regex else regex, replacement)}
              \<and> emitted = map (\<lambda>(rv, pv). (\<lparr>pattern = word_break_wrap word_breaks rv, ignorecase = insensitive\<rparr>, pv)) pairs"
proof (cases "startswith (strip line) ''#''")
  case True
  with ok show ?thesis by (simp add: parse_line_def Let_def)
next
  case False
  let ?bits = "split_on TAB line"
  from ok False have len: "length ?bits = 2"
    by (auto simp: parse_line_def Let_def split: if_splits)
  then obtain regex replacement where bits: "?bits = [regex, replacement]"
    by (cases ?bits; cases "tl ?bits"; auto)
  let ?regex = "if literal then re_escape re regex else regex"
  from ok False len bits obtain rs where rs: "all_case_variants ?regex = Inr rs"
    by (auto simp: parse_line_def Let_def split: if_splits sum.splits)
  from ok False len bits rs obtain ps where ps: "all_case_variants replacement = Inr ps"
    by (auto simp: parse_line_def Let_def split: if_splits sum.splits)
  let ?pairs = "sort (remdups (zip rs ps @ [(?regex, replacement)]))"
  have "map_raise
          (\<lambda>(regex_variant, replacement_variant).
             case re_compile re (word_break_wrap word_breaks regex_variant) insensitive of
               Inl e \<Rightarrow> Inl e
             | Inr compiled \<Rightarrow> Inr (compiled, replacement_variant)) ?pairs
        = Inr emitted"
    using ok False len bits rs ps by (auto simp: parse_line_def Let_def split: if_splits)
  then have em: "emitted = map (\<lambda>(rv, pv). (\<lparr>pattern = word_break_wrap word_breaks rv, ignorecase = insensitive\<rparr>, pv)) ?pairs"
    using compile_pairs[where re = re and insensitive = insensitive and word_breaks = word_breaks
        and pairs = ?pairs and emitted = emitted] comp
    by blast
  have so: "sorted_wrt (<) ?pairs" by (rule sort_remdups_strict)
  have se: "set ?pairs = set (zip rs ps) \<union> {(?regex, replacement)}"
    unfolding sort_remdups_strict(2) by simp
  have "\<exists>regex replacement rs ps pairs.
                split_on TAB line = [regex, replacement]
              \<and> all_case_variants (if literal then re_escape re regex else regex) = Inr rs
              \<and> all_case_variants replacement = Inr ps
              \<and> sorted_wrt (<) pairs
              \<and> set pairs = set (zip rs ps) \<union> {(if literal then re_escape re regex else regex, replacement)}
              \<and> emitted = map (\<lambda>(rv, pv). (\<lparr>pattern = word_break_wrap word_breaks rv, ignorecase = insensitive\<rparr>, pv)) pairs"
    apply (rule exI[of _ regex], rule exI[of _ replacement], rule exI[of _ rs], rule exI[of _ ps])
    apply (rule exI[of _ ?pairs])
    apply (intro conjI)
    apply (rule bits, rule rs, rule ps, rule so, rule se, rule em)
    done
  with False show ?thesis by simp
qed

text \<open>
  C4, as stated, fails for the line \<^verbatim>\<open>foo_bar<TAB>xxx_yyy\<close>: the variant pairs
  are computed in the order lowerCamel, UpperCamel, lower_underscore, UPPER_UNDERSCORE,
  and the stable duplicate removal of the specification would keep that order, but
  \<^verbatim>\<open>parse_patterns\<close> emits the pairs in the order of \<^verbatim>\<open>sorted(set(pairs))\<close>, which begins with
  \<^verbatim>\<open>FOO_BAR\<close>.
\<close>

theorem preserve_case_order_counterexample:
  "all_case_variants ''foo_bar'' = Inr [''fooBar'', ''FooBar'', ''foo_bar'', ''FOO_BAR'']
   \<and> all_case_variants ''xxx_yyy'' = Inr [''xxxYyy'', ''XxxYyy'', ''xxx_yyy'', ''XXX_YYY'']
   \<and> spec_stable_dedup (zip [''fooBar'', ''FooBar'', ''foo_bar'', ''FOO_BAR'']
                             [''xxxYyy'', ''XxxYyy'', ''xxx_yyy'', ''XXX_YYY''] @ [(''foo_bar'', ''xxx_yyy'')]) =
       [(''fooBar'', ''xxxYyy''), (''FooBar'', ''XxxYyy''), (''foo_bar'', ''xxx_yyy''), (''FOO_BAR'', ''XXX_YYY'')]
   \<and> parse_patterns plain_re (''foo_bar'' @ [TAB] @ ''xxx_yyy'') False False False True =
       Inr [(lit ''FOO_BAR'', ''XXX_YYY''), (lit ''FooBar'', ''XxxYyy''),
            (lit ''fooBar'', ''xxxYyy''), (lit ''foo_bar'', ''xxx_yyy'')]
   \<and> [(''FOO_BAR'', ''XXX_YYY''), (''FooBar'', ''XxxYyy''), (''fooBar'', ''xxxYyy''), (''foo_bar'', ''xxx_yyy'')]
       \<noteq> [(''fooBar'', ''xxxYyy''), (''FooBar'', ''XxxYyy''), (''foo_bar'', ''xxx_yyy''), (''FOO_BAR'', ''XXX_YYY'')]"
  by code_simp

text \<open>
  C4, amended. When \<^verbatim>\<open>parse_patterns\<close> returns with \<^verbatim>\<open>preserve_case\<close> set (so \<^verbatim>\<open>re.compile\<close> has
  raised for no pattern; all that is assumed of \<^verbatim>\<open>re.compile\<close> is that a regex it returns
  records the pattern text and the flag it was compiled from), its rules are the rules
  of the lines, line after line. A
  comment line gives none. Every other line has exactly two fields, and its rules are
  the compiled pairs of a list that is strictly ascending in the order of
  \<^verbatim>\<open>(pattern, replacement)\<close> tuples (so it has no duplicates) and holds exactly the four
  case-variant pairs and the original pair: the pairs are sorted, not kept in the order
  of the variants.
\<close>

theorem parse_patterns_preserve_case_sorted:
  assumes ok: "parse_patterns re patterns_str literal word_breaks insensitive True = Inr rules"
    and comp: "\<And>p rx. re_compile re p insensitive = Inr rx \<Longrightarrow> rx = \<lparr>pattern = p, ignorecase = insensitive\<rparr>"
  shows "\<exists>per_line. rules = concat per_line
           \<and> list_all2
               (\<lambda>line emitted.
                  if startswith (strip line) ''#'' then emitted = []
                  else \<exists>regex replacement rs ps pairs.
                         split_on TAB line = [regex, replacement]
                       \<and> all_case_variants (if literal then re_escape re regex else regex) = Inr rs
                       \<and> all_case_variants replacement = Inr ps
                       \<and> sorted_wrt (<) pairs
                       \<and> set pairs = set (zip rs ps) \<union> {(if literal then re_escape re regex else regex, replacement)}
                       \<and> emitted = map (\<lambda>(rv, pv). (\<lparr>pattern = word_break_wrap word_breaks rv, ignorecase = insensitive\<rparr>, pv)) pairs)
               (splitlines patterns_str) per_line"
proof -
  from ok obtain per_line where
    pl: "map_raise (parse_line re literal word_breaks insensitive True) (splitlines patterns_str) = Inr per_line"
    and rules: "rules = concat per_line"
    by (auto simp: parse_patterns_def split: sum.splits)
  from map_raise_list_all2[OF pl]
  have "list_all2 (\<lambda>line emitted. parse_line re literal word_breaks insensitive True line = Inr emitted)
          (splitlines patterns_str) per_line" .
  then have "list_all2
               (\<lambda>line emitted.
                  if startswith (strip line) ''#'' then emitted = []
                  else \<exists>regex replacement rs ps pairs.
                         split_on TAB line = [regex, replacement]
                       \<and> all_case_variants (if literal then re_escape re regex else regex) = Inr rs
                       \<and> all_case_variants replacement = Inr ps
                       \<and> sorted_wrt (<) pairs
                       \<and> set pairs = set (zip rs ps) \<union> {(if literal then re_escape re regex else regex, replacement)}
                       \<and> emitted = map (\<lambda>(rv, pv). (\<lparr>pattern = word_break_wrap word_breaks rv, ignorecase = insensitive\<rparr>, pv)) pairs)
               (splitlines patterns_str) per_line"
    by (rule list_all2_mono) (rule parse_line_preserve_case[OF _ comp])
  with rules show ?thesis by blast
qed

text \<open>The amended C4 at the pattern file \<^verbatim>\<open>foo_bar<TAB>xxx_yyy\<close> and the plain \<^verbatim>\<open>re\<close> module.\<close>

theorem parse_patterns_preserve_case_sorted_witness:
  "parse_patterns plain_re (''foo_bar'' @ [TAB] @ ''xxx_yyy'') False False False True =
     Inr [(lit ''FOO_BAR'', ''XXX_YYY''), (lit ''FooBar'', ''XxxYyy''),
          (lit ''fooBar'', ''xxxYyy''), (lit ''foo_bar'', ''xxx_yyy'')]
   \<and> (\<exists>per_line.
         [(lit ''FOO_BAR'', ''XXX_YYY''), (lit ''FooBar'', ''XxxYyy''),
          (lit ''fooBar'', ''xxxYyy''), (lit ''foo_bar'', ''xxx_yyy'')] = concat per_line
         \<and> list_all2
             (\<lambda>line emitted.
                if startswith (strip line) ''#'' then emitted = []
                else \<exists>regex replacement rs ps pairs.
                       split_on TAB line = [regex, replacement]
                     \<and> all_case_variants (if False then re_escape plain_re regex else regex) = Inr rs
                     \<and> all_case_variants replacement = Inr ps
                     \<and> sorted_wrt (<) pairs
                     \<and> set pairs = set (zip rs ps) \<union> {(if False then re_escape plain_re regex else regex, replacement)}
                     \<and> emitted = map (\<lambda>(rv, pv). (\<lparr>pattern = word_break_wrap False rv, ignorecase = False\<rparr>, pv)) pairs)
             (splitlines (''foo_bar'' @ [TAB] @ ''xxx_yyy'')) per_line)"
proof -
  have ok: "parse_patterns plain_re (''foo_bar'' @ [TAB] @ ''xxx_yyy'') False False False True =
     Inr [(lit ''FOO_BAR'', ''XXX_YYY''), (lit ''FooBar'', ''XxxYyy''),
          (lit ''fooBar'', ''xxxYyy''), (lit ''foo_bar'', ''xxx_yyy'')]"
    by code_simp
  have comp: "\<And>p rx. re_compile plain_re p False = Inr rx \<Longrightarrow> rx = \<lparr>pattern = p, ignorecase = False\<rparr>"
    by (simp add: plain_re_def)
  from parse_patterns_preserve_case_sorted[OF ok comp] ok show ?thesis by simp
qed

text \<open>
  C8, as stated, fails at the input \<^verbatim>\<open>fooBar\<close>: the lowerCamel variant of the
  replacement \<^verbatim>\<open>xxx_yyy\<close> is \<^verbatim>\<open>xxxYyy\<close> (\<^verbatim>\<open>_capitalize\<close> puts the rest of a word in lower case),
  so the expanded rules rewrite \<^verbatim>\<open>fooBar\<close> to \<^verbatim>\<open>xxxYyy\<close> and not to \<^verbatim>\<open>xxxYYY\<close>.
\<close>

theorem lower_camel_replacement_counterexample:
  "all_case_variants ''xxx_yyy'' = Inr [''xxxYyy'', ''XxxYyy'', ''xxx_yyy'', ''XXX_YYY'']
   \<and> parse_patterns plain_re (''foo_bar'' @ [TAB] @ ''xxx_yyy'') False False False True =
       Inr [(lit ''FOO_BAR'', ''XXX_YYY''), (lit ''FooBar'', ''XxxYyy''),
            (lit ''fooBar'', ''xxxYyy''), (lit ''foo_bar'', ''xxx_yyy'')]
   \<and> fst (multi_replace plain_re ''fooBar''
            [(lit ''FOO_BAR'', ''XXX_YYY''), (lit ''FooBar'', ''XxxYyy''),
             (lit ''fooBar'', ''xxxYyy''), (lit ''foo_bar'', ''xxx_yyy'')]) \<noteq> ''xxxYYY''"
  by code_simp

text \<open>
  C8, amended. For the pattern file \<^verbatim>\<open>foo_bar<TAB>xxx_yyy\<close> compiled with \<^verbatim>\<open>preserve_case\<close>,
  \<^verbatim>\<open>all_case_variants\<close> gives the four variants of pattern and replacement in the order
  lowerCamel, UpperCamel, lower_underscore, UPPER_UNDERSCORE, and the expanded rules
  rewrite the inputs \<^verbatim>\<open>fooBar\<close>, \<^verbatim>\<open>FooBar\<close> and \<^verbatim>\<open>FOO_BAR\<close> to \<^verbatim>\<open>xxxYyy\<close>, \<^verbatim>\<open>XxxYyy\<close> and \<^verbatim>\<open>XXX_YYY\<close>
  (and \<^verbatim>\<open>foo_bar\<close> to \<^verbatim>\<open>xxx_yyy\<close>), each with one match found and applied.
\<close>

theorem preserve_case_rewrites:
  "all_case_variants ''foo_bar'' = Inr [''fooBar'', ''FooBar'', ''foo_bar'', ''FOO_BAR'']
   \<and> all_case_variants ''xxx_yyy'' = Inr [''xxxYyy'', ''XxxYyy'', ''xxx_yyy'', ''XXX_YYY'']
   \<and> parse_patterns plain_re (''foo_bar'' @ [TAB] @ ''xxx_yyy'') False False False True =
       Inr [(lit ''FOO_BAR'', ''XXX_YYY''), (lit ''FooBar'', ''XxxYyy''),
            (lit ''fooBar'', ''xxxYyy''), (lit ''foo_bar'', ''xxx_yyy'')]
   \<and> map (\<lambda>input. multi_replace plain_re input
            [(lit ''FOO_BAR'', ''XXX_YYY''), (lit ''FooBar'', ''XxxYyy''),
             (lit ''fooBar'', ''xxxYyy''), (lit ''foo_bar'', ''xxx_yyy'')])
       [''fooBar'', ''FooBar'', ''FOO_BAR'', ''foo_bar''] =
     [(''xxxYyy'', \<lparr>found = 1, valid = 1\<rparr>), (''XxxYyy'', \<lparr>found = 1, valid = 1\<rparr>),
      (''XXX_YYY'', \<lparr>found = 1, valid = 1\<rparr>), (''xxx_yyy'', \<lparr>found = 1, valid = 1\<rparr>)]"
  by code_simp

subsection \<open>Case handling\<close>

lemma capitalize_Inr_iff: "(\<exists>y. capitalize w = Inr y) \<longleftrightarrow> w \<noteq> []"
  by (cases w) (auto simp: capitalize_def)

lemma capitalize_Inl: "capitalize w = Inl e \<Longrightarrow> e = IndexError"
  by (cases w) (auto simp: capitalize_def)

lemma to_upper_camel_Inr_iff:
  "(\<exists>y. to_upper_camel name = Inr y) \<longleftrightarrow> [] \<notin> set (snd (split_name name))"
proof -
  have "(\<exists>ys. map_raise capitalize (snd (split_name name)) = Inr ys) \<longleftrightarrow> [] \<notin> set (snd (split_name name))"
    unfolding map_raise_Inr_iff capitalize_Inr_iff by auto
  then show ?thesis unfolding to_upper_camel_def by (auto split: sum.splits)
qed

lemma split_name_nonempty: "snd (split_name name) \<noteq> []"
  by (simp add: split_name_def split_on_nonempty)

lemma to_lower_camel_Inr:
  assumes "[] \<notin> set (snd (split_name name))"
  shows "\<exists>y. to_lower_camel name = Inr y"
proof (cases "snd (split_name name)")
  case Nil
  then show ?thesis using split_name_nonempty[of name] by simp
next
  case (Cons w ws)
  with assms have "\<forall>x \<in> set ws. \<exists>y. capitalize x = Inr y"
    using capitalize_Inr_iff by auto
  then obtain cs where "map_raise capitalize ws = Inr cs"
    using map_raise_Inr_iff[of capitalize ws] by blast
  with Cons show ?thesis by (simp add: to_lower_camel_def)
qed

lemma transform_Inl_IndexError:
  assumes "t \<in> set [to_lower_camel, to_upper_camel, to_lower_underscore, to_upper_underscore]"
    and "t name = Inl e"
  shows "e = IndexError"
proof -
  have "to_lower_camel name = Inl e \<Longrightarrow> e = IndexError"
    by (auto simp: to_lower_camel_def split: list.splits sum.splits dest!: map_raise_Inl capitalize_Inl)
  moreover have "to_upper_camel name = Inl e \<Longrightarrow> e = IndexError"
    by (auto simp: to_upper_camel_def split: sum.splits dest!: map_raise_Inl capitalize_Inl)
  ultimately show ?thesis using assms
    by (auto simp: to_lower_underscore_def to_upper_underscore_def)
qed

lemma transform_expr_Inr_iff:
  "(\<exists>y. transform_expr expr t = Inr y) \<longleftrightarrow> (\<forall>name \<in> set (names_of expr). \<exists>y. t name = Inr y)"
proof -
  have "(\<exists>ys. map_raise (\<lambda>p. case p of Name n \<Rightarrow> t n | Other c \<Rightarrow> Inr [c]) (name_pieces [] expr) = Inr ys)
        \<longleftrightarrow> (\<forall>name \<in> set (names_of expr). \<exists>y. t name = Inr y)"
    unfolding map_raise_Inr_iff names_of_def by (auto split: piece.splits)
  then show ?thesis unfolding transform_expr_def by (auto split: sum.splits)
qed

lemma transform_expr_Inl:
  "transform_expr expr t = Inl e \<Longrightarrow> \<exists>name \<in> set (names_of expr). t name = Inl e"
proof -
  assume "transform_expr expr t = Inl e"
  then have "map_raise (\<lambda>p. case p of Name n \<Rightarrow> t n | Other c \<Rightarrow> Inr [c]) (name_pieces [] expr) = Inl e"
    unfolding transform_expr_def by (auto split: sum.splits)
  then obtain p where p: "p \<in> set (name_pieces [] expr)"
      "(case p of Name n \<Rightarrow> t n | Other c \<Rightarrow> Inr [c]) = Inl e"
    by (blast dest: map_raise_Inl)
  from p(2) obtain n where "p = Name n" "t n = Inl e" by (cases p) auto
  with p(1) show ?thesis unfolding names_of_def by force
qed

text \<open>
  C10. When every name of an expression (every maximal run of word characters) splits
  into non-empty words only, \<^verbatim>\<open>all_case_variants\<close> returns, and returns exactly four
  strings. The condition is necessary: when some name has an empty word, as a name
  with a leading, trailing or doubled underscore has, \<^verbatim>\<open>all_case_variants\<close> raises
  \<^verbatim>\<open>IndexError\<close> (from \<^verbatim>\<open>word[0]\<close> in \<^verbatim>\<open>_capitalize\<close>).
\<close>

theorem all_case_variants_four_or_IndexError:
  "if list_all (\<lambda>name. [] \<notin> set (snd (split_name name))) (names_of expr)
   then \<exists>vs. all_case_variants expr = Inr vs \<and> length vs = 4
   else all_case_variants expr = Inl IndexError"
proof (cases "list_all (\<lambda>name. [] \<notin> set (snd (split_name name))) (names_of expr)")
  case True
  then have ne: "\<And>name. name \<in> set (names_of expr) \<Longrightarrow> [] \<notin> set (snd (split_name name))"
    by (simp add: list_all_iff)
  have "\<forall>t \<in> set [to_lower_camel, to_upper_camel, to_lower_underscore, to_upper_underscore].
          \<exists>y. transform_expr expr t = Inr y"
    unfolding transform_expr_Inr_iff
    using ne to_lower_camel_Inr to_upper_camel_Inr_iff
    by (auto simp: to_lower_underscore_def to_upper_underscore_def)
  then obtain vs where vs: "all_case_variants expr = Inr vs"
    unfolding all_case_variants_def using map_raise_Inr_iff[of "transform_expr expr"] by blast
  then have "length vs = 4"
    unfolding all_case_variants_def using map_raise_length by fastforce
  with vs True show ?thesis by simp
next
  case False
  then obtain name where name: "name \<in> set (names_of expr)" "[] \<in> set (snd (split_name name))"
    by (auto simp: list_all_iff)
  then have "\<not> (\<exists>y. transform_expr expr to_upper_camel = Inr y)"
    unfolding transform_expr_Inr_iff using to_upper_camel_Inr_iff by blast
  then have "\<not> (\<exists>vs. all_case_variants expr = Inr vs)"
    unfolding all_case_variants_def map_raise_Inr_iff by auto
  then obtain e where e: "all_case_variants expr = Inl e" by (cases "all_case_variants expr") auto
  then obtain t where t: "t \<in> set [to_lower_camel, to_upper_camel, to_lower_underscore, to_upper_underscore]"
      "transform_expr expr t = Inl e"
    unfolding all_case_variants_def by (blast dest: map_raise_Inl)
  then obtain n where "t n = Inl e" by (blast dest: transform_expr_Inl)
  with t(1) have "e = IndexError" by (rule transform_Inl_IndexError)
  with e False show ?thesis by simp
qed

text \<open>C10 at \<^verbatim>\<open>foo_bar\<close>, which has four variants, and at \<^verbatim>\<open>_foo\<close>, \<^verbatim>\<open>foo__bar\<close> and \<^verbatim>\<open>foo_\<close>,
  which raise.\<close>

theorem all_case_variants_four_or_IndexError_witness:
  "(\<exists>vs. all_case_variants ''foo_bar'' = Inr vs \<and> length vs = 4)
   \<and> all_case_variants ''_foo'' = Inl IndexError
   \<and> all_case_variants ''foo__bar'' = Inl IndexError
   \<and> all_case_variants ''foo_'' = Inl IndexError"
proof -
  have a: "list_all (\<lambda>name. [] \<notin> set (snd (split_name name))) (names_of ''foo_bar'')" by code_simp
  have b: "\<not> list_all (\<lambda>name. [] \<notin> set (snd (split_name name))) (names_of ''_foo'')" by code_simp
  have c: "\<not> list_all (\<lambda>name. [] \<notin> set (snd (split_name name))) (names_of ''foo__bar'')" by code_simp
  have d: "\<not> list_all (\<lambda>name. [] \<notin> set (snd (split_name name))) (names_of ''foo_'')" by code_simp
  show ?thesis
    using all_case_variants_four_or_IndexError[of "''foo_bar''"]
      all_case_variants_four_or_IndexError[of "''_foo''"]
      all_case_variants_four_or_IndexError[of "''foo__bar''"]
      all_case_variants_four_or_IndexError[of "''foo_''"] a b c d
    by simp
qed

subsection \<open>File handling\<close>

lemma free_path_candidate:
  "\<exists>k. free_path fs d i = candidate d i k \<and> \<not> path_exists fs (candidate d i k)
        \<and> (\<forall>j<k. path_exists fs (candidate d i j))"
proof (induction fs d i rule: free_path.induct)
  case (1 fs d i)
  show ?case
  proof (cases "path_exists fs d")
    case False
    then have "free_path fs d i = candidate d i 0 \<and> \<not> path_exists fs (candidate d i 0)
        \<and> (\<forall>j<0. path_exists fs (candidate d i j))" by simp
    then show ?thesis by blast
  next
    case True
    from "1.IH"[OF True] obtain k where k: "free_path fs (next_dest d i) (i + 1) = candidate (next_dest d i) (i + 1) k"
      "\<not> path_exists fs (candidate (next_dest d i) (i + 1) k)"
      "\<forall>j<k. path_exists fs (candidate (next_dest d i) (i + 1) j)" by blast
    have sh: "\<And>j. candidate (next_dest d i) (i + 1) j = candidate d i (Suc j)"
      using candidate_shift[of d i] by simp
    have "free_path fs d i = candidate d i (Suc k)" using True k(1) sh by simp
    moreover have "\<not> path_exists fs (candidate d i (Suc k))" using k(2) sh by simp
    moreover have "\<forall>j<Suc k. path_exists fs (candidate d i j)"
    proof (intro allI impI)
      fix j assume "j < Suc k"
      then show "path_exists fs (candidate d i j)"
        using True k(3) sh by (cases j) auto
    qed
    ultimately show ?thesis by blast
  qed
qed

lemma lookup_moved:
  "lookup (fs\<lparr>files := AList.update t f (AList.delete s (files fs))\<rparr>) p =
     (if p = t then Some f else if p = s then None else lookup fs p)"
  by (simp add: lookup_def update_conv' delete_conv')

text \<open>
  C9. \<^verbatim>\<open>move_file\<close> with \<^verbatim>\<open>clobber=False\<close>, for a source that is a regular file. The loop ends
  (the function is total), at the first path that does not exist in the sequence
  \<open>candidate dest_path 1 0, 1, 2, ...\<close>: the destination itself, then the path without a
  trailing \<^verbatim>\<open>.<N>\<close> and with the suffixes \<^verbatim>\<open>.1\<close>, \<^verbatim>\<open>.2\<close>, ... in turn; all candidates before it
  exist. The file is moved to that path: there it is afterwards, the source path is
  gone, and every other path holds what it held, so no existing file is overwritten.
  (When the directory of that path does not exist the move fails and nothing changes.)
\<close>

theorem move_file_no_clobber:
  assumes src: "lookup fs source_path = Some f"
  shows "\<exists>k. (\<forall>j<k. path_exists fs (candidate dest_path 1 j))
           \<and> \<not> path_exists fs (candidate dest_path 1 k)
           \<and> (if parent_ok fs (candidate dest_path 1 k)
               then \<exists>fs'. move_file fs source_path dest_path False = (Inr (), fs')
                      \<and> lookup fs' (candidate dest_path 1 k) = Some f
                      \<and> lookup fs' source_path = None
                      \<and> (\<forall>p. p \<noteq> source_path \<and> p \<noteq> candidate dest_path 1 k \<longrightarrow> lookup fs' p = lookup fs p)
                      \<and> dirs fs' = dirs fs
               else move_file fs source_path dest_path False = (Inl IOError, fs))"
proof -
  from free_path_candidate[of fs dest_path 1] obtain k where
    k: "free_path fs dest_path 1 = candidate dest_path 1 k"
       "\<not> path_exists fs (candidate dest_path 1 k)"
       "\<forall>j<k. path_exists fs (candidate dest_path 1 j)" by blast
  let ?t = "candidate dest_path 1 k"
  from k(2) have nd: "\<not> isdir fs ?t" by (simp add: path_exists_def)
  from src have "path_exists fs source_path" by (simp add: path_exists_def isfile_def)
  with k(2) have ne: "?t \<noteq> source_path" by auto
  have mv: "move_file fs source_path dest_path False =
      (if parent_ok fs ?t then (Inr (), fs\<lparr>files := AList.update ?t f (AList.delete source_path (files fs))\<rparr>)
       else (Inl IOError, fs))"
    unfolding move_file_def shutil_move_def using k(1) nd ne src by (simp add: Let_def)
  have "if parent_ok fs ?t
        then \<exists>fs'. move_file fs source_path dest_path False = (Inr (), fs')
               \<and> lookup fs' ?t = Some f \<and> lookup fs' source_path = None
               \<and> (\<forall>p. p \<noteq> source_path \<and> p \<noteq> ?t \<longrightarrow> lookup fs' p = lookup fs p)
               \<and> dirs fs' = dirs fs
        else move_file fs source_path dest_path False = (Inl IOError, fs)"
    using mv ne by (auto simp: lookup_moved)
  with k(2,3) show ?thesis by blast
qed

text \<open>
  C9 at the files \<^verbatim>\<open>out\<close>, \<^verbatim>\<open>out.1\<close> and \<^verbatim>\<open>new\<close>: the candidates are \<^verbatim>\<open>out\<close>, \<^verbatim>\<open>out.1\<close>, \<^verbatim>\<open>out.2\<close>, the
  new file ends at \<^verbatim>\<open>out.2\<close>, and the three contents are all there.
\<close>

theorem move_file_no_clobber_witness:
  "lookup fs_out ''new'' = Some \<lparr>content = ''third'', mode = 384\<rparr>
   \<and> (\<exists>k. (\<forall>j<k. path_exists fs_out (candidate ''out'' 1 j))
           \<and> \<not> path_exists fs_out (candidate ''out'' 1 k)
           \<and> (if parent_ok fs_out (candidate ''out'' 1 k)
               then \<exists>fs'. move_file fs_out ''new'' ''out'' False = (Inr (), fs')
                      \<and> lookup fs' (candidate ''out'' 1 k) = Some \<lparr>content = ''third'', mode = 384\<rparr>
                      \<and> lookup fs' ''new'' = None
                      \<and> (\<forall>p. p \<noteq> ''new'' \<and> p \<noteq> candidate ''out'' 1 k \<longrightarrow> lookup fs' p = lookup fs_out p)
                      \<and> dirs fs' = dirs fs_out
               else move_file fs_out ''new'' ''out'' False = (Inl IOError, fs_out)))
   \<and> map (candidate ''out'' 1) [0, 1, 2] = [''out'', ''out.1'', ''out.2'']
   \<and> move_file fs_out ''new'' ''out'' False =
       (Inr (), \<lparr>files = [(''out'', \<lparr>content = ''first'', mode = 420\<rparr>),
                          (''out.1'', \<lparr>content = ''second'', mode = 420\<rparr>),
                          (''out.2'', \<lparr>content = ''third'', mode = 384\<rparr>)], dirs = []\<rparr>)"
proof -
  have h: "lookup fs_out ''new'' = Some \<lparr>content = ''third'', mode = 384\<rparr>" by code_simp
  have c: "map (candidate ''out'' 1) [0, 1, 2] = [''out'', ''out.1'', ''out.2'']" by code_simp
  have m: "move_file fs_out ''new'' ''out'' False =
       (Inr (), \<lparr>files = [(''out'', \<lparr>content = ''first'', mode = 420\<rparr>),
                          (''out.1'', \<lparr>content = ''second'', mode = 420\<rparr>),
                          (''out.2'', \<lparr>content = ''third'', mode = 384\<rparr>)], dirs = []\<rparr>)" by code_simp
  from move_file_no_clobber[OF h, of "''out''"] h c m show ?thesis by blast
qed

lemma make_parent_dirs_files: "files (snd (make_parent_dirs fs p)) = files fs"
  by (simp add: make_parent_dirs_def makedirs_def Let_def)

lemma make_parent_dirs_lookup: "lookup (snd (make_parent_dirs fs p)) q = lookup fs q"
  by (simp add: lookup_def make_parent_dirs_files)

lemma os_open_creat_lookup:
  "q \<noteq> p \<Longrightarrow> lookup (snd (os_open_creat fs p perms)) q = lookup fs q"
  by (simp add: os_open_creat_def lookup_def update_conv')

lemma os_open_creat_isfile:
  "fst (os_open_creat fs p perms) = Inr () \<Longrightarrow> isfile (snd (os_open_creat fs p perms)) p"
  by (auto simp: os_open_creat_def isfile_def lookup_def update_conv' split: if_splits)

lemma os_open_creat_error:
  "fst (os_open_creat fs p perms) = Inl e \<Longrightarrow> e = OSError"
  by (auto simp: os_open_creat_def split: if_splits)

lemma make_parent_dirs_error:
  "fst (make_parent_dirs fs p) = Inl e \<Longrightarrow> e = OSError"
  by (auto simp: make_parent_dirs_def makedirs_def Let_def split: if_splits)

lemma write_output_lookup:
  "q \<noteq> p \<Longrightarrow> lookup (snd (write_output fault fs p data)) q = lookup fs q"
  by (auto simp: write_output_def lookup_def update_conv' Let_def split: option.splits)

lemma write_output_fault:
  assumes "isfile fs p" and "fault p = Some k" and "k < length data"
  shows "fst (write_output fault fs p data) = Inl IOError"
  using assms by (auto simp: write_output_def isfile_def Let_def split: option.splits)

lemma transform_file_fault_frame:
  assumes src: "lookup fs source_path = Some src"
    and out: "transform_stream (Some t) (content src) by_line = Inr (counts, data)"
    and fault: "fault (dest_path @ temp_suffix) = Some k"
    and short: "k < length data"
  shows "\<exists>e fs'. transform_file fault fs (Some t) source_path dest_path orig_suffix temp_suffix by_line dry_run
             = (Inl e, fs')
           \<and> (e = IOError \<or> e = OSError)
           \<and> (fst (make_parent_dirs fs (dest_path @ temp_suffix)) = Inr ()
                \<and> fst (os_open_creat (snd (make_parent_dirs fs (dest_path @ temp_suffix)))
                       (dest_path @ temp_suffix) (mode src AND 0x1FF)) = Inr ()
                \<longrightarrow> e = IOError)
           \<and> (\<forall>p. p \<noteq> dest_path @ temp_suffix \<longrightarrow> lookup fs' p = lookup fs p)"
proof -
  let ?temp = "dest_path @ temp_suffix"
  let ?r = "transform_file fault fs (Some t) source_path dest_path orig_suffix temp_suffix by_line dry_run"
  obtain r1 fs1 where mk: "make_parent_dirs fs ?temp = (r1, fs1)" by (cases "make_parent_dirs fs ?temp")
  have l1: "\<And>q. lookup fs1 q = lookup fs q" using make_parent_dirs_lookup[of fs ?temp] mk by simp
  show ?thesis
  proof (cases r1)
    case (Inl e)
    then have "?r = (Inl e, fs1)" using mk by (simp add: transform_file_def Let_def)
    moreover have "e = OSError" using make_parent_dirs_error[of fs ?temp e] mk Inl by simp
    ultimately show ?thesis using l1 mk Inl by simp
  next
    case (Inr u)
    have ex: "path_exists fs1 source_path" using src l1 by (simp add: path_exists_def isfile_def)
    have s1: "lookup fs1 source_path = Some src" using src l1 by simp
    obtain r2 fs2 where op: "os_open_creat fs1 ?temp (mode src AND 0x1FF) = (r2, fs2)"
      by (cases "os_open_creat fs1 ?temp (mode src AND 0x1FF)")
    have l2: "\<And>q. q \<noteq> ?temp \<Longrightarrow> lookup fs2 q = lookup fs q"
      using os_open_creat_lookup[of _ ?temp fs1 "mode src AND 0x1FF"] op l1 by simp
    show ?thesis
    proof (cases r2)
      case (Inl e)
      then have "?r = (Inl e, fs2)" using mk Inr ex s1 op by (simp add: transform_file_def Let_def)
      moreover have "e = OSError" using os_open_creat_error[of fs1 ?temp "mode src AND 0x1FF" e] op Inl by simp
      ultimately show ?thesis using l2 mk op Inl by simp
    next
      case (Inr u2)
      then have f2: "isfile fs2 ?temp" using os_open_creat_isfile[of fs1 ?temp "mode src AND 0x1FF"] op by simp
      obtain r3 fs3 where wr: "write_output fault fs2 ?temp data = (r3, fs3)"
        by (cases "write_output fault fs2 ?temp data")
      have "r3 = Inl IOError" using write_output_fault[of fs2 ?temp fault k data] f2 fault short wr by simp
      then have "?r = (Inl IOError, fs3)"
        using mk \<open>r1 = Inr u\<close> ex s1 op Inr out wr by (simp add: transform_file_def Let_def)
      moreover have "\<And>q. q \<noteq> ?temp \<Longrightarrow> lookup fs3 q = lookup fs q"
        using write_output_lookup[of _ ?temp fault fs2 data] wr l2 by simp
      ultimately show ?thesis by simp
    qed
  qed
qed

text \<open>
  What holds when the write to the temporary file fails. Let the source be a regular
  file and let the device take fewer bytes of the temporary file than the output has.
  Then \<^verbatim>\<open>transform_file\<close> ends with an exception, which is the \<^verbatim>\<open>IOError\<close> of the write
  whenever the parent directories could be made and the temporary file opened, and no
  move has happened: every path other than the temporary path holds what it held
  before the call. The source file and the backup at \<^verbatim>\<open>source_path + orig_suffix\<close> are
  untouched when they are not the temporary path itself.
\<close>

lemma transform_file_write_fault:
  assumes src: "lookup fs source_path = Some src"
    and out: "transform_stream (Some t) (content src) by_line = Inr (counts, data)"
    and fault: "fault (dest_path @ temp_suffix) = Some k"
    and short: "k < length data"
  shows "\<exists>e fs'. transform_file fault fs (Some t) source_path dest_path orig_suffix temp_suffix by_line dry_run
             = (Inl e, fs')
           \<and> (e = IOError \<or> e = OSError)
           \<and> (fst (make_parent_dirs fs (dest_path @ temp_suffix)) = Inr ()
                \<and> fst (os_open_creat (snd (make_parent_dirs fs (dest_path @ temp_suffix)))
                       (dest_path @ temp_suffix) (mode src AND 0x1FF)) = Inr ()
                \<longrightarrow> e = IOError)
           \<and> (\<forall>p. p \<noteq> dest_path @ temp_suffix \<longrightarrow> lookup fs' p = lookup fs p)
           \<and> (source_path \<noteq> dest_path @ temp_suffix \<longrightarrow> lookup fs' source_path = Some src)
           \<and> (source_path @ orig_suffix \<noteq> dest_path @ temp_suffix \<longrightarrow>
                lookup fs' (source_path @ orig_suffix) = lookup fs (source_path @ orig_suffix))"
proof -
  let ?temp = "dest_path @ temp_suffix"
  let ?r = "transform_file fault fs (Some t) source_path dest_path orig_suffix temp_suffix by_line dry_run"
  from transform_file_fault_frame[OF src out, where fault = fault and dest_path = dest_path
      and temp_suffix = temp_suffix and k = k and orig_suffix = orig_suffix and dry_run = dry_run]
    fault short
  obtain e fs' where r: "?r = (Inl e, fs')" "e = IOError \<or> e = OSError"
    "fst (make_parent_dirs fs ?temp) = Inr ()
       \<and> fst (os_open_creat (snd (make_parent_dirs fs ?temp)) ?temp (mode src AND 0x1FF)) = Inr ()
       \<longrightarrow> e = IOError"
    "\<forall>p. p \<noteq> ?temp \<longrightarrow> lookup fs' p = lookup fs p" by blast
  have "source_path \<noteq> ?temp \<longrightarrow> lookup fs' source_path = Some src" using r(4) src by simp
  moreover have "source_path @ orig_suffix \<noteq> ?temp \<longrightarrow>
      lookup fs' (source_path @ orig_suffix) = lookup fs (source_path @ orig_suffix)" using r(4) by simp
  ultimately show ?thesis using r by blast
qed

text \<open>
  The same for \<^verbatim>\<open>rewrite_file\<close>, the only caller: the backup path never is the temporary path,
  and the source path is not when its name does not end with the suffix of temporary
  files (\<^verbatim>\<open>walk_files\<close> drops such names when it walks a directory).
\<close>

lemma backup_is_not_temp: "p @ BACKUP_SUFFIX \<noteq> d @ TEMP_SUFFIX"
proof
  assume "p @ BACKUP_SUFFIX = d @ TEMP_SUFFIX"
  then have "rev (p @ BACKUP_SUFFIX) = rev (d @ TEMP_SUFFIX)" by simp
  then show False by (simp add: BACKUP_SUFFIX_def TEMP_SUFFIX_def)
qed

lemma endswith_append: "endswith (d @ s) s"
  by (simp add: endswith_def startswith_def)

lemma rewrite_file_write_fault:
  assumes src: "lookup fs p = Some src"
    and name: "\<not> endswith p TEMP_SUFFIX"
    and dest: "dest_path = (if do_renames then fst (multi_replace re p patterns) else p)"
    and out: "transform_stream (Some (\<lambda>contents. multi_replace re contents patterns)) (content src) by_line
                = Inr (counts, data)"
    and fault: "fault (dest_path @ TEMP_SUFFIX) = Some k"
    and short: "k < length data"
  shows "\<exists>e fs'. rewrite_file re fault fs p patterns do_renames True by_line dry_run = (Inl e, fs')
           \<and> lookup fs' p = Some src
           \<and> lookup fs' (p @ BACKUP_SUFFIX) = lookup fs (p @ BACKUP_SUFFIX)"
proof -
  let ?t = "\<lambda>contents. multi_replace re contents patterns"
  from transform_file_fault_frame[where fs = fs and source_path = p and src = src and t = ?t
      and by_line = by_line and counts = counts and data = data and fault = fault
      and dest_path = dest_path and temp_suffix = TEMP_SUFFIX and k = k
      and orig_suffix = BACKUP_SUFFIX and dry_run = dry_run] src out fault short
  obtain e fs' where r: "transform_file fault fs (Some ?t) p dest_path BACKUP_SUFFIX TEMP_SUFFIX by_line dry_run = (Inl e, fs')"
    and fr: "\<forall>q. q \<noteq> dest_path @ TEMP_SUFFIX \<longrightarrow> lookup fs' q = lookup fs q"
    by blast
  have "p \<noteq> dest_path @ TEMP_SUFFIX" using name endswith_append[of dest_path TEMP_SUFFIX] by auto
  with fr src have "lookup fs' p = Some src" by simp
  moreover have "lookup fs' (p @ BACKUP_SUFFIX) = lookup fs (p @ BACKUP_SUFFIX)"
    using fr backup_is_not_temp[of p dest_path] by simp
  moreover have "rewrite_file re fault fs p patterns do_renames True by_line dry_run = (Inl e, fs')"
    using r dest by (simp add: rewrite_file_def Let_def)
  ultimately show ?thesis by blast
qed

text \<open>
  For the file \<^verbatim>\<open>a\<close> with an older backup \<^verbatim>\<open>a.orig\<close>: the write of \<^verbatim>\<open>a.repren.tmp\<close> fails after two
  bytes, \<^verbatim>\<open>transform_file\<close> raises \<^verbatim>\<open>IOError\<close>, and \<^verbatim>\<open>a\<close> and \<^verbatim>\<open>a.orig\<close> are as before.
\<close>

lemma transform_file_write_fault_example:
  "lookup fs_ab ''a'' = Some \<lparr>content = ''foo'' @ [LF] @ ''x foo'', mode = 932\<rparr>
   \<and> transform_stream (Some foo_to_bar) (''foo'' @ [LF] @ ''x foo'') True
       = Inr (\<lparr>found = 2, valid = 2\<rparr>, ''bar'' @ [LF] @ ''x bar'')
   \<and> fault_a (''a'' @ ''.repren.tmp'') = Some 2
   \<and> 2 < length (''bar'' @ [LF] @ ''x bar'')
   \<and> transform_file fault_a fs_ab (Some foo_to_bar) ''a'' ''a'' ''.orig'' ''.repren.tmp'' True False
       = (Inl IOError, fs_ab_failed)
   \<and> lookup fs_ab_failed ''a'' = lookup fs_ab ''a''
   \<and> lookup fs_ab_failed ''a.orig'' = Some \<lparr>content = ''old'', mode = 420\<rparr>
   \<and> (\<exists>e fs'. transform_file fault_a fs_ab (Some foo_to_bar) ''a'' ''a'' ''.orig'' ''.repren.tmp'' True False
             = (Inl e, fs')
           \<and> (\<forall>p. p \<noteq> ''a'' @ ''.repren.tmp'' \<longrightarrow> lookup fs' p = lookup fs_ab p))"
proof -
  have h1: "lookup fs_ab ''a'' = Some \<lparr>content = ''foo'' @ [LF] @ ''x foo'', mode = 932\<rparr>"
    by code_simp
  have h2: "transform_stream (Some foo_to_bar) (content \<lparr>content = ''foo'' @ [LF] @ ''x foo'', mode = 932\<rparr>) True
       = Inr (\<lparr>found = 2, valid = 2\<rparr>, ''bar'' @ [LF] @ ''x bar'')"
    by code_simp
  have h3: "fault_a (''a'' @ ''.repren.tmp'') = Some 2" by code_simp
  have h4: "2 < length (''bar'' @ [LF] @ ''x bar'')" by simp
  have r: "transform_file fault_a fs_ab (Some foo_to_bar) ''a'' ''a'' ''.orig'' ''.repren.tmp'' True False
       = (Inl IOError, fs_ab_failed)"
    by code_simp
  have l1: "lookup fs_ab_failed ''a'' = lookup fs_ab ''a''" by code_simp
  have l2: "lookup fs_ab_failed ''a.orig'' = Some \<lparr>content = ''old'', mode = 420\<rparr>" by code_simp
  from h1 h2 h3 h4
    transform_file_write_fault[where fs = fs_ab and source_path = "''a''" and dest_path = "''a''"
      and src = "\<lparr>content = ''foo'' @ [LF] @ ''x foo'', mode = 932\<rparr>" and t = foo_to_bar
      and by_line = True and counts = "\<lparr>found = 2, valid = 2\<rparr>" and data = "''bar'' @ [LF] @ ''x bar''"
      and fault = fault_a and temp_suffix = "''.repren.tmp''" and k = 2
      and orig_suffix = "''.orig''" and dry_run = False]
  have "\<exists>e fs'. transform_file fault_a fs_ab (Some foo_to_bar) ''a'' ''a'' ''.orig'' ''.repren.tmp'' True False
             = (Inl e, fs')
           \<and> (\<forall>p. p \<noteq> ''a'' @ ''.repren.tmp'' \<longrightarrow> lookup fs' p = lookup fs_ab p)"
    by blast
  with h1 h2 h3 h4 r l1 l2 show ?thesis by simp
qed

text \<open>
  C2 (a failed write of the temporary file leaves the source untouched), at the source
  \<^verbatim>\<open>x.repren.tmp\<close> with the destination \<^verbatim>\<open>x\<close>, as \<^verbatim>\<open>rewrite_file\<close> calls \<^verbatim>\<open>transform_file\<close> when the
  rules rename the file by removing its suffix \<^verbatim>\<open>.repren.tmp\<close>: the temporary path
  \<^verbatim>\<open>dest_path + temp_suffix\<close> is the source path itself, \<^verbatim>\<open>os.open\<close> opens the source for
  writing, and the write that fails after two bytes has put \<^verbatim>\<open>ba\<close> over the first two
  bytes of the source. \<^verbatim>\<open>transform_file\<close> raises \<^verbatim>\<open>IOError\<close> before any move, but the content of
  the source has changed from \<^verbatim>\<open>foo\nx foo\<close> to \<^verbatim>\<open>bao\nx foo\<close>, although the comment in
  \<^verbatim>\<open>transform_file\<close> says that the original file is not modified until the write has
  succeeded. (The file is short: it is read as a whole before the first byte of output
  reaches the device.)
\<close>

theorem aliased_temp_write_changes_source:
  "''x'' @ ''.repren.tmp'' = ''x.repren.tmp''
   \<and> lookup fs_alias ''x.repren.tmp'' = Some \<lparr>content = ''foo'' @ [LF] @ ''x foo'', mode = 420\<rparr>
   \<and> transform_stream (Some foo_to_bar) (''foo'' @ [LF] @ ''x foo'') True
        = Inr (\<lparr>found = 2, valid = 2\<rparr>, ''bar'' @ [LF] @ ''x bar'')
   \<and> transform_file fault_x fs_alias (Some foo_to_bar) ''x.repren.tmp'' ''x'' ''.orig'' ''.repren.tmp'' True False
        = (Inl IOError,
           \<lparr>files = [(''x.repren.tmp'', \<lparr>content = ''bao'' @ [LF] @ ''x foo'', mode = 420\<rparr>)], dirs = []\<rparr>)"
  by code_simp

text \<open>
  C3, as stated, fails for the run over the files \<^verbatim>\<open>a\<close> and \<^verbatim>\<open>b\<close> when the write of
  \<^verbatim>\<open>a.repren.tmp\<close> fails: \<^verbatim>\<open>rewrite_files\<close> ends with the \<^verbatim>\<open>IOError\<close>, and \<^verbatim>\<open>b\<close> has not been
  processed (it is unchanged and has no backup), although \<^verbatim>\<open>rewrite_file\<close> on \<^verbatim>\<open>b\<close> in that
  state would rewrite it.
\<close>

theorem rewrite_files_halts_counterexample:
  "rewrite_files no_walk plain_re fault_a fs_ab [''a'', ''b''] [(lit ''foo'', ''bar'')]
       False True (\<lambda>f. startswith f ''.'') True False
     = (Inl IOError, fs_ab_failed)
   \<and> lookup fs_ab_failed ''b'' = Some \<lparr>content = ''foo'' @ [LF], mode = 420\<rparr>
   \<and> lookup fs_ab_failed ''b.orig'' = None
   \<and> lookup (snd (rewrite_file plain_re fault_a fs_ab_failed ''b'' [(lit ''foo'', ''bar'')] False True True False)) ''b''
       = Some \<lparr>content = ''bar'' @ [LF], mode = 420\<rparr>"
  by code_simp

lemma rewrite_each_stops:
  assumes "rewrite_each re fault fs ps patterns do_renames do_contents by_line dry_run = (Inr (), fs1)"
    and "rewrite_file re fault fs1 p patterns do_renames do_contents by_line dry_run = (Inl e, fs2)"
  shows "rewrite_each re fault fs (ps @ p # qs) patterns do_renames do_contents by_line dry_run = (Inl e, fs2)"
  using assms
proof (induction ps arbitrary: fs)
  case Nil
  then show ?case by simp
next
  case (Cons a ps)
  obtain r fs' where a: "rewrite_file re fault fs a patterns do_renames do_contents by_line dry_run = (r, fs')"
    by (cases "rewrite_file re fault fs a patterns do_renames do_contents by_line dry_run")
  show ?case
  proof (cases r)
    case (Inl x)
    with a Cons.prems(1) show ?thesis by simp
  next
    case (Inr u)
    with a Cons.prems(1) have "rewrite_each re fault fs' ps patterns do_renames do_contents by_line dry_run = (Inr (), fs1)"
      by simp
    from Cons.IH[OF this Cons.prems(2)] a Inr show ?thesis by simp
  qed
qed

text \<open>
  C3, amended. An exception of \<^verbatim>\<open>rewrite_file\<close> for one file of a run (such as the \<^verbatim>\<open>IOError\<close>
  of a failed write to its temporary file) aborts that file's transform and ends the
  run: when the files before it were processed without exception, \<^verbatim>\<open>rewrite_files\<close>
  returns that exception and the file system as the failed call left it, whatever
  files follow. The remaining files are not processed.
\<close>

theorem rewrite_files_stops_at_error:
  assumes "walk_files os_walk fs exclude root_paths = Inr (ps @ p # qs)"
    and "rewrite_each re fault fs ps patterns do_renames do_contents by_line dry_run = (Inr (), fs1)"
    and "rewrite_file re fault fs1 p patterns do_renames do_contents by_line dry_run = (Inl e, fs2)"
  shows "rewrite_files os_walk re fault fs root_paths patterns do_renames do_contents exclude by_line dry_run
           = (Inl e, fs2)"
  using assms rewrite_each_stops[OF assms(2,3)] by (simp add: rewrite_files_def)

text \<open>The amended C3 at the run over \<^verbatim>\<open>a\<close> and \<^verbatim>\<open>b\<close> with the failing write of \<^verbatim>\<open>a.repren.tmp\<close>.\<close>

theorem rewrite_files_stops_at_error_witness:
  "walk_files no_walk fs_ab (\<lambda>f. startswith f ''.'') [''a'', ''b''] = Inr ([] @ ''a'' # [''b''])
   \<and> rewrite_each plain_re fault_a fs_ab [] [(lit ''foo'', ''bar'')] False True True False = (Inr (), fs_ab)
   \<and> rewrite_file plain_re fault_a fs_ab ''a'' [(lit ''foo'', ''bar'')] False True True False = (Inl IOError, fs_ab_failed)
   \<and> rewrite_files no_walk plain_re fault_a fs_ab [''a'', ''b''] [(lit ''foo'', ''bar'')]
         False True (\<lambda>f. startswith f ''.'') True False = (Inl IOError, fs_ab_failed)"
proof -
  have w: "walk_files no_walk fs_ab (\<lambda>f. startswith f ''.'') [''a'', ''b''] = Inr ([] @ ''a'' # [''b''])"
    by code_simp
  have e: "rewrite_each plain_re fault_a fs_ab [] [(lit ''foo'', ''bar'')] False True True False = (Inr (), fs_ab)"
    by simp
  have f: "rewrite_file plain_re fault_a fs_ab ''a'' [(lit ''foo'', ''bar'')] False True True False = (Inl IOError, fs_ab_failed)"
    by code_simp
  from rewrite_files_stops_at_error[OF w e f] w e f show ?thesis by simp
qed

end
